theory Spec2Isabelle
  imports Main "HOL-Library.Extended_Nat" "HOL-Library.Sublist"
begin

section \<open>JavaScript strings\<close>

text \<open>
  A JavaScript string is a sequence of code units. The model uses \<^typ>\<open>string\<close>, so a code
  unit is one of the 256 values of \<^typ>\<open>char\<close>, read as the Latin-1 range U+0000..U+00FF.
  Inside that range the predicates below are the ones of ECMAScript.
\<close>

definition is_space :: "char \<Rightarrow> bool" where
  \<comment> \<open>WhiteSpace and LineTerminator: what \<open>trim()\<close> removes and what \<open>\s\<close> matches.\<close>
  "is_space c = (c \<in> set [CHR 0x09, CHR 0x0A, CHR 0x0B, CHR 0x0C, CHR 0x0D, CHR 0x20, CHR 0xA0])"

definition is_digit :: "char \<Rightarrow> bool" where
  "is_digit c = (c \<in> set ''0123456789'')"

definition is_upper :: "char \<Rightarrow> bool" where
  "is_upper c = (c \<in> set ''ABCDEFGHIJKLMNOPQRSTUVWXYZ'')"

definition is_lower :: "char \<Rightarrow> bool" where
  "is_lower c = (c \<in> set ''abcdefghijklmnopqrstuvwxyz'')"

definition is_dot :: "char \<Rightarrow> bool" where
  \<comment> \<open>the regular expression \<open>.\<close>: anything but a line terminator\<close>
  "is_dot c = (c \<noteq> CHR 0x0A \<and> c \<noteq> CHR 0x0D)"

definition lower_char :: "char \<Rightarrow> char" where
  \<comment> \<open>\<open>toLowerCase\<close> on one Latin-1 code unit: A-Z, and U+00C0..U+00DE without U+00D7\<close>
  "lower_char c =
     (let n = (of_char c :: nat)
      in if (65 \<le> n \<and> n \<le> 90) \<or> (192 \<le> n \<and> n \<le> 222 \<and> n \<noteq> 215) then char_of (n + 32) else c)"

definition toLowerCase :: "string \<Rightarrow> string" where
  "toLowerCase s = map lower_char s"

definition trim :: "string \<Rightarrow> string" where
  "trim s = rev (dropWhile is_space (rev (dropWhile is_space s)))"

fun includes_str :: "string \<Rightarrow> string \<Rightarrow> bool" where
  \<comment> \<open>\<open>s.includes(t)\<close>\<close>
  "includes_str [] t = (t = [])"
| "includes_str (c # cs) t = (prefix t (c # cs) \<or> includes_str cs t)"

fun endsWith :: "string \<Rightarrow> string \<Rightarrow> bool" where
  "endsWith s t = suffix t s"

definition clamp_index :: "string \<Rightarrow> int \<Rightarrow> nat" where
  \<comment> \<open>an index argument is clamped to \<open>0 .. length\<close>\<close>
  "clamp_index s i = nat (max 0 (min i (int (length s))))"

definition indexOf :: "string \<Rightarrow> char \<Rightarrow> int \<Rightarrow> int" where
  \<comment> \<open>\<open>s.indexOf(c, from)\<close>: the first index at or after \<open>from\<close> holding \<open>c\<close>, or -1\<close>
  "indexOf s c from =
     (let k = clamp_index s from; r = drop k s
      in if c \<in> set r then int (k + length (takeWhile (\<lambda>x. x \<noteq> c) r)) else - 1)"

definition substring :: "string \<Rightarrow> int \<Rightarrow> int \<Rightarrow> string" where
  \<comment> \<open>\<open>s.substring(a, b)\<close>: both indices clamped, swapped when \<open>a > b\<close>\<close>
  "substring s a b =
     (let a' = clamp_index s a; b' = clamp_index s b; lo = min a' b'; hi = max a' b'
      in take (hi - lo) (drop lo s))"

fun replace_first :: "string \<Rightarrow> string \<Rightarrow> string" where
  \<comment> \<open>\<open>s.replace(f, '')\<close> with a string pattern: the first occurrence only\<close>
  "replace_first f [] = []"
| "replace_first f (c # cs) =
     (if prefix f (c # cs) then drop (length f) (c # cs) else c # replace_first f cs)"

section \<open>Regular expressions\<close>

text \<open>
  The patterns of the parser use character classes, sequences, alternatives, optional
  parts, greedy and lazy repetition of one class, capturing groups and the anchors.
  A match state is the index in the subject, the rest of the subject and the captures.
  \<open>matches r x\<close> lists every way \<open>r\<close> matches at \<open>x\<close> in the order a backtracking matcher
  tries them, so the head of the list is the match that JavaScript reports.
\<close>

datatype regex =
    Eps
  | Cls "char \<Rightarrow> bool"
  | StrI string
  | Seq regex regex
  | Alt regex regex
  | Opt regex
  | Rep nat "nat option" "char \<Rightarrow> bool"
  | LazyRep nat "nat option" "char \<Rightarrow> bool"
  | Grp nat regex
  | Bol
  | Eol

type_synonym captures = "nat \<rightharpoonup> string"
type_synonym mstate = "nat \<times> string \<times> captures"

definition rep_counts :: "nat \<Rightarrow> nat option \<Rightarrow> (char \<Rightarrow> bool) \<Rightarrow> string \<Rightarrow> nat list" where
  \<comment> \<open>how many code units \<open>c{m,n}\<close> may take at the front of \<open>s\<close>, in increasing order\<close>
  "rep_counts m n P s =
     (let k = length (takeWhile P s);
          hi = (case n of None \<Rightarrow> k | Some n' \<Rightarrow> min n' k)
      in [m ..< Suc hi])"

definition ci_prefix :: "string \<Rightarrow> string \<Rightarrow> bool" where
  \<comment> \<open>the literal \<open>l\<close> stands at the front of \<open>s\<close>, letters compared without case (flag \<open>i\<close>)\<close>
  "ci_prefix l s = (length l \<le> length s \<and> toLowerCase (take (length l) s) = toLowerCase l)"

fun matches :: "regex \<Rightarrow> mstate \<Rightarrow> mstate list" where
  "matches Eps x = [x]"
| "matches (Cls P) (i, s, c) =
     (case s of [] \<Rightarrow> [] | x # xs \<Rightarrow> if P x then [(Suc i, xs, c)] else [])"
| "matches (StrI l) (i, s, c) =
     (if ci_prefix l s then [(i + length l, drop (length l) s, c)] else [])"
| "matches (Seq r1 r2) x = concat (map (matches r2) (matches r1 x))"
| "matches (Alt r1 r2) x = matches r1 x @ matches r2 x"
| "matches (Opt r) x = matches r x @ [x]"
| "matches (Rep m n P) (i, s, c) = map (\<lambda>k. (i + k, drop k s, c)) (rev (rep_counts m n P s))"
| "matches (LazyRep m n P) (i, s, c) = map (\<lambda>k. (i + k, drop k s, c)) (rep_counts m n P s)"
| "matches (Grp g r) (i, s, c) =
     map (\<lambda>(j, t, d). (j, t, d(g \<mapsto> take (j - i) s))) (matches r (i, s, c))"
| "matches Bol (i, s, c) = (if i = 0 then [(i, s, c)] else [])"
| "matches Eol (i, s, c) = (if s = [] then [(i, s, c)] else [])"

fun seqs :: "regex list \<Rightarrow> regex" where
  "seqs [] = Eps"
| "seqs [r] = r"
| "seqs (r # rs) = Seq r (seqs rs)"

fun alts :: "regex list \<Rightarrow> regex" where
  "alts [] = Cls (\<lambda>_. False)"
| "alts [r] = r"
| "alts (r # rs) = Alt r (alts rs)"

definition chr :: "char \<Rightarrow> regex" where
  "chr a = Cls (\<lambda>c. c = a)"

definition match_at :: "regex \<Rightarrow> nat \<Rightarrow> string \<Rightarrow> (nat \<times> captures) option" where
  \<comment> \<open>the match that starts at index \<open>i\<close>, where \<open>s\<close> is the subject from \<open>i\<close> on:
      its length and its captures\<close>
  "match_at r i s =
     (case matches r (i, s, Map.empty) of [] \<Rightarrow> None | (j, t, c) # _ \<Rightarrow> Some (j - i, c))"

fun search :: "regex \<Rightarrow> nat \<Rightarrow> string \<Rightarrow> (string \<times> captures) option" where
  \<comment> \<open>\<open>exec\<close> from index \<open>i\<close>: the leftmost match, as the matched text and the captures\<close>
  "search r i [] =
     (case match_at r i [] of None \<Rightarrow> None | Some (n, c) \<Rightarrow> Some ([], c))"
| "search r i (x # xs) =
     (case match_at r i (x # xs) of
        None \<Rightarrow> search r (Suc i) xs
      | Some (n, c) \<Rightarrow> Some (take n (x # xs), c))"

function replace_all :: "regex \<Rightarrow> nat \<Rightarrow> string \<Rightarrow> string" where
  \<comment> \<open>\<open>s.replace(r, '')\<close> with a global pattern: every match is deleted, scanning from the
      left; after an empty match the scan moves on by one code unit\<close>
  "replace_all r i [] = []"
| "replace_all r i (x # xs) =
     (case match_at r i (x # xs) of
        None \<Rightarrow> x # replace_all r (Suc i) xs
      | Some (n, c) \<Rightarrow>
          if n = 0 then x # replace_all r (Suc i) xs
          else replace_all r (i + n) (drop n (x # xs)))"
  by pat_completeness auto
termination
  by (relation "measure (\<lambda>(r, i, s). length s)") auto

section \<open>The patterns of the parser\<close>

definition date_sep :: "char \<Rightarrow> bool" where
  "date_sep c = (c \<in> set ''/.-'')"

definition space_or_hyphen :: "char \<Rightarrow> bool" where
  "space_or_hyphen c = (is_space c \<or> c = CHR ''-'')"

definition not_colon :: "char \<Rightarrow> bool" where
  "not_colon c = (c \<noteq> CHR '':'')"

definition name_char :: "char \<Rightarrow> bool" where
  \<comment> \<open>\<open>[a-zA-Z0-9._\-]\<close>\<close>
  "name_char c = (is_lower c \<or> is_upper c \<or> is_digit c \<or> c \<in> set ''._-'')"

definition edge_char :: "char \<Rightarrow> bool" where
  \<comment> \<open>\<open>[:\s\-]\<close>\<close>
  "edge_char c = (c = CHR '':'' \<or> is_space c \<or> c = CHR ''-'')"

definition MESSAGE_REGEXP :: regex where
  "MESSAGE_REGEXP =
     seqs [Bol, Opt (chr CHR ''[''),
       Grp 1 (seqs [Rep 1 (Some 4) is_digit, Cls date_sep, Rep 1 (Some 4) is_digit,
                    Cls date_sep, Rep 1 (Some 4) is_digit, Opt (chr CHR '',''), Cls is_space,
                    Rep 1 (Some 2) is_digit, chr CHR '':'', Rep 2 (Some 2) is_digit,
                    Opt (Seq (chr CHR '':'') (Rep 2 (Some 2) is_digit)),
                    Opt (Cls is_space),
                    Opt (alts [StrI ''AM'', StrI ''PM'', StrI ''am'', StrI ''pm''])]),
       Opt (chr CHR '']''), Rep 0 None space_or_hyphen,
       Grp 2 (Rep 1 None not_colon), chr CHR '':'', Cls is_space,
       Grp 3 (Rep 0 None is_dot), Eol]"

definition extensions :: "string list" where
  "extensions = [''jpg'', ''jpeg'', ''png'', ''webp'', ''gif'', ''heic'', ''mp4'', ''opus'',
     ''m4a'', ''wav'', ''pdf'', ''sticker'', ''doc'', ''docx'', ''xls'', ''xlsx'', ''txt'']"

definition ATTACHMENT_REGEXP :: regex where
  "ATTACHMENT_REGEXP =
     Grp 1 (seqs [Rep 1 None name_char, chr CHR ''.'', alts (map StrI extensions)])"

definition SYSTEM_PATTERNS :: "regex list" where
  "SYSTEM_PATTERNS =
     [StrI ''(file attached)'',
      seqs [StrI ''<attached'', Opt (chr CHR '':''), Rep 0 None is_space, LazyRep 0 None is_dot,
            chr CHR ''>''],
      StrI ''media omitted'',
      seqs [chr CHR ''['', LazyRep 0 None is_dot, chr CHR '']'']]"

definition EDGE_REGEXP :: regex where
  \<comment> \<open>\<open>/^[:\s\-]+|[:\s\-]+$/g\<close>\<close>
  "EDGE_REGEXP = Alt (Seq Bol (Rep 1 None edge_char)) (Seq (Rep 1 None edge_char) Eol)"

section \<open>Message records and the shared tracker\<close>

record ChatMessage =
  timestamp :: string
  sender :: string
  "text" :: string
  isMe :: "bool option"
  mediaUrl :: "string option"
  isViewOnce :: "bool option"

text \<open>
  Message objects are shared by reference: the array a call returns, the accumulated
  array of the caller and \<open>stateTracker.current\<close> point to the same objects, and a
  continuation line changes the object the tracker points to. The model keeps every object
  ever created in \<open>objects\<close>, in the order of creation; a reference is an index into it.
\<close>

record world =
  objects :: "ChatMessage list"
  tracker :: "nat option"

type_synonym assetMap = "string \<rightharpoonup> string"

definition truthy :: "string option \<Rightarrow> bool" where
  \<comment> \<open>a value of type \<open>string | undefined\<close> in a condition\<close>
  "truthy v = (case v of None \<Rightarrow> False | Some s \<Rightarrow> s \<noteq> [])"

definition or_else :: "string option \<Rightarrow> string option \<Rightarrow> string option" where
  \<comment> \<open>\<open>a || b\<close>\<close>
  "or_else a b = (if truthy a then a else b)"

definition resolve :: "assetMap \<Rightarrow> string \<Rightarrow> string option" where
  \<comment> \<open>\<open>assetMap.get(fileName) || assetMap.get(fileName.toLowerCase())\<close>\<close>
  "resolve assetMap fileName = or_else (assetMap fileName) (assetMap (toLowerCase fileName))"

definition headMatch :: "string \<Rightarrow> (string \<times> string \<times> string) option" where
  \<comment> \<open>\<open>line.match(MESSAGE_REGEXP)\<close>: the three groups, which take part in every match\<close>
  "headMatch line =
     (case search MESSAGE_REGEXP 0 line of
        None \<Rightarrow> None
      | Some (m, c) \<Rightarrow>
          (case (c 1, c 2, c 3) of
             (Some ts, Some author, Some bodyContent) \<Rightarrow> Some (ts, author, bodyContent)
           | _ \<Rightarrow> None))"

definition fileName_of :: "string \<Rightarrow> string option" where
  \<comment> \<open>\<open>mediaMatch ? mediaMatch[0].trim() : null\<close>\<close>
  "fileName_of line =
     (case search ATTACHMENT_REGEXP 0 line of None \<Rightarrow> None | Some (m, c) \<Rightarrow> Some (trim m))"

definition strip_markers :: "string \<Rightarrow> string" where
  \<comment> \<open>\<open>SYSTEM_PATTERNS.forEach(regex => body = body.replace(regex, ''))\<close>\<close>
  "strip_markers s = fold (\<lambda>r t. replace_all r 0 t) SYSTEM_PATTERNS s"

definition strip_name :: "string \<Rightarrow> string \<Rightarrow> string" where
  \<comment> \<open>\<open>s.replace(fileName, '').trim().replace(/^[:\s\-]+|[:\s\-]+$/g, '')\<close>\<close>
  "strip_name fileName s = replace_all EDGE_REGEXP 0 (trim (replace_first fileName s))"

definition update_object :: "nat \<Rightarrow> (ChatMessage \<Rightarrow> ChatMessage) \<Rightarrow> world \<Rightarrow> world" where
  "update_object a f w = w\<lparr>objects := (objects w)[a := f (objects w ! a)]\<rparr>"

definition append_text :: "string \<Rightarrow> ChatMessage \<Rightarrow> ChatMessage" where
  "append_text s m = m\<lparr>text := text m @ s\<rparr>"

definition process_line :: "assetMap \<Rightarrow> string \<Rightarrow> nat list \<times> world \<Rightarrow> nat list \<times> world" where
  \<comment> \<open>the body of the loop for one trimmed, non-empty line\<close>
  "process_line assetMap line = (\<lambda>(parsedMessages, w).
     let fileName = fileName_of line
     in case headMatch line of
          Some (ts, author, bodyContent) \<Rightarrow>
            let body = trim bodyContent;
                url = (if truthy fileName then resolve assetMap (the fileName) else None);
                body' = (if truthy fileName then strip_name (the fileName) (strip_markers body)
                         else body);
                message = \<lparr>timestamp = trim ts, sender = trim author, text = body',
                           isMe = None, mediaUrl = url,
                           isViewOnce = Some (includes_str (toLowerCase bodyContent) ''view once'')\<rparr>;
                a = length (objects w)
            in (parsedMessages @ [a], \<lparr>objects = objects w @ [message], tracker = Some a\<rparr>)
        | None \<Rightarrow>
            (case tracker w of
               None \<Rightarrow> (parsedMessages, w)
             | Some a \<Rightarrow>
                 if truthy fileName then
                   let url = resolve assetMap (the fileName);
                       w1 = (if truthy url then update_object a (\<lambda>m. m\<lparr>mediaUrl := url\<rparr>) w
                             else w);
                       cleaned = strip_name (the fileName) (strip_markers line)
                   in if cleaned \<noteq> [] then
                        (parsedMessages,
                         update_object a
                           (\<lambda>m. append_text ((if text m \<noteq> [] then [CHR 0x0A] else []) @ cleaned) m) w1)
                      else (parsedMessages, w1)
                 else (parsedMessages, update_object a (append_text (CHR 0x0A # line)) w)))"

definition next_break :: "string \<Rightarrow> int \<Rightarrow> int" where
  \<comment> \<open>\<open>nextLineBreak\<close> after its correction: the index of the next line feed, or the length\<close>
  "next_break content p =
     (let nextLineBreak = indexOf content (CHR 0x0A) p
      in if nextLineBreak = - 1 then int (length content) else nextLineBreak)"

lemma set_drop_less: "c \<in> set (drop k s) \<Longrightarrow> k < length s"
  by (cases "k < length s") auto

lemma takeWhile_drop_le: "k \<le> length s \<Longrightarrow> k + length (takeWhile P (drop k s)) \<le> length s"
  using length_takeWhile_le [of P "drop k s"] by simp

lemma next_break_ge: "p \<le> int (length content) \<Longrightarrow> p \<le> next_break content p"
  by (auto simp: next_break_def indexOf_def clamp_index_def Let_def dest: set_drop_less)

lemma next_break_nonneg: "0 \<le> next_break content p"
  by (auto simp: next_break_def indexOf_def clamp_index_def Let_def)

lemma next_break_le: "next_break content p \<le> int (length content)"
proof (cases "CHR 0x0A \<in> set (drop (clamp_index content p) content)")
  case True
  then have "clamp_index content p \<le> length content"
    by (auto dest: set_drop_less)
  from takeWhile_drop_le [OF this, of "\<lambda>x. x \<noteq> CHR 0x0A"] True show ?thesis
    by (simp add: next_break_def indexOf_def Let_def del: of_nat_add flip: of_nat_add)
next
  case False
  then show ?thesis
    by (simp add: next_break_def indexOf_def Let_def)
qed

function parse_loop ::
  "string \<Rightarrow> assetMap \<Rightarrow> enat \<Rightarrow> int \<Rightarrow> nat \<Rightarrow> nat list \<times> world \<Rightarrow> int \<times> nat list \<times> world" where
  "parse_loop content assetMap limit currentPointer linesProcessed st =
     (if currentPointer < int (length content) \<and> enat linesProcessed < limit then
        let nextLineBreak = next_break content currentPointer;
            line = trim (substring content currentPointer nextLineBreak)
        in if line = [] then
             parse_loop content assetMap limit (nextLineBreak + 1) linesProcessed st
           else
             parse_loop content assetMap limit (nextLineBreak + 1) (Suc linesProcessed)
               (process_line assetMap line st)
      else (currentPointer, st))"
  by pat_completeness auto
termination
proof (relation "measure (\<lambda>(content, assetMap, limit, p, n, st). nat (int (length content) - p))")
  show "wf (measure (\<lambda>(content, assetMap, limit, p, n, st). nat (int (length content) - p)))"
    by simp
next
  fix content :: string and assetMap :: assetMap and limit :: enat and currentPointer :: int
    and linesProcessed :: nat and st :: "nat list \<times> world" and x xa
  assume "currentPointer < int (length content) \<and> enat linesProcessed < limit"
    and "x = next_break content currentPointer"
  then show "((content, assetMap, limit, x + 1, linesProcessed, st),
              content, assetMap, limit, currentPointer, linesProcessed, st)
        \<in> measure (\<lambda>(content, assetMap, limit, p, n, st). nat (int (length content) - p))"
    using next_break_ge [of currentPointer content] by simp
next
  fix content :: string and assetMap :: assetMap and limit :: enat and currentPointer :: int
    and linesProcessed :: nat and st :: "nat list \<times> world" and x xa
  assume "currentPointer < int (length content) \<and> enat linesProcessed < limit"
    and "x = next_break content currentPointer"
  then show "((content, assetMap, limit, x + 1, Suc linesProcessed, process_line assetMap xa st),
              content, assetMap, limit, currentPointer, linesProcessed, st)
        \<in> measure (\<lambda>(content, assetMap, limit, p, n, st). nat (int (length content) - p))"
    using next_break_ge [of currentPointer content] by simp
qed

definition parseWhatsAppStringChunk ::
  "string \<Rightarrow> int \<Rightarrow> enat \<Rightarrow> assetMap \<Rightarrow> world \<Rightarrow> int \<times> nat list \<times> world" where
  \<comment> \<open>the result is \<open>nextCharIndex\<close>, the references in \<open>messages\<close>, and the memory after the call\<close>
  "parseWhatsAppStringChunk content offset limit assetMap w =
     parse_loop content assetMap limit offset 0 ([], w)"

subsection \<open>One step of the loop, and how two budgets compose\<close>

lemma enat_shift_less: "enat (k + j) < L + enat j \<longleftrightarrow> enat k < L"
  by (cases L) auto

declare parse_loop.simps [simp del]

lemma parse_loop_step:
  "p < int (length content) \<Longrightarrow> enat k < L \<Longrightarrow>
   parse_loop content am L p k st =
     (if trim (substring content p (next_break content p)) = []
      then parse_loop content am L (next_break content p + 1) k st
      else parse_loop content am L (next_break content p + 1) (Suc k)
             (process_line am (trim (substring content p (next_break content p))) st))"
  by (subst parse_loop.simps) (simp add: Let_def)

lemma parse_loop_stop:
  "\<not> (p < int (length content) \<and> enat k < L) \<Longrightarrow> parse_loop content am L p k st = (p, st)"
  by (subst parse_loop.simps) auto

lemma parse_loop_shift:
  "parse_loop content am (L + enat j) p (k + j) st = parse_loop content am L p k st"
proof (induction content am L p k st rule: parse_loop.induct)
  case (1 content am L p k st)
  show ?case
  proof (cases "p < int (length content) \<and> enat k < L")
    case True
    then have g: "enat (k + j) < L + enat j"
      by (simp add: enat_shift_less)
    from True have a: "p < int (length content)" and b: "enat k < L" by simp_all
    show ?thesis
      using "1.IH" [OF True refl refl]
      by (simp add: parse_loop_step [OF a g] parse_loop_step [OF a b])
  next
    case False
    then have g: "\<not> (p < int (length content) \<and> enat (k + j) < L + enat j)"
      by (simp add: enat_shift_less)
    show ?thesis
      by (simp add: parse_loop_stop [OF g] parse_loop_stop [OF False])
  qed
qed

lemma parse_loop_compose:
  "enat k \<le> m \<Longrightarrow>
   parse_loop content am (m + n) p k st =
     (case parse_loop content am m p k st of (p1, st1) \<Rightarrow> parse_loop content am n p1 0 st1)"
proof (induction content am m p k st rule: parse_loop.induct)
  case (1 content am m p k st)
  show ?case
  proof (cases "p < int (length content)")
    case False
    then show ?thesis by (simp add: parse_loop_stop)
  next
    case inside: True
    show ?thesis
    proof (cases "enat k < m")
      case True
      have g: "enat k < m + n"
        using True by (cases m; cases n) auto
      have s: "enat (Suc k) \<le> m" using True by (simp add: Suc_ile_eq)
      have k: "enat k \<le> m" using True by simp
      show ?thesis
        using "1.IH"(1) [OF conjI [OF inside True] refl refl _ k]
          "1.IH"(2) [OF conjI [OF inside True] refl refl _ s]
        by (simp add: parse_loop_step [OF inside g] parse_loop_step [OF inside True])
    next
      case False
      with "1.prems" have m: "m = enat k" by simp
      have "parse_loop content am (n + enat k) p (0 + k) st = parse_loop content am n p 0 st"
        by (rule parse_loop_shift)
      then have "parse_loop content am (m + n) p k st = parse_loop content am n p 0 st"
        by (simp add: m add.commute)
      moreover have "parse_loop content am m p k st = (p, st)"
        using m by (simp add: parse_loop_stop)
      ultimately show ?thesis by simp
    qed
  qed
qed


lemma process_line_messages:
  "process_line am line (acc0 @ acc, w) =
     (case process_line am line (acc, w) of (acc', w') \<Rightarrow> (acc0 @ acc', w'))"
  by (simp add: process_line_def Let_def split: option.splits prod.splits)

lemma parse_loop_messages:
  "parse_loop content am L p k (acc0 @ fst st, snd st) =
     (case parse_loop content am L p k st of (p', acc', w') \<Rightarrow> (p', acc0 @ acc', w'))"
proof (induction content am L p k st rule: parse_loop.induct)
  case (1 content am L p k st)
  show ?case
  proof (cases "p < int (length content) \<and> enat k < L")
    case False
    then show ?thesis by (simp add: parse_loop_stop split: prod.splits)
  next
    case True
    then have a: "p < int (length content)" and b: "enat k < L" by simp_all
    let ?line = "trim (substring content p (next_break content p))"
    show ?thesis
    proof (cases "?line = []")
      case e: True
      show ?thesis
        using "1.IH"(1) [OF True refl refl e]
        by (simp add: parse_loop_step [OF a b] e)
    next
      case ne: False
      obtain acc1 w1 where pl: "process_line am ?line st = (acc1, w1)"
        by (cases "process_line am ?line st")
      then have pl': "process_line am ?line (acc0 @ fst st, snd st) = (acc0 @ acc1, w1)"
        using process_line_messages [of am ?line acc0 "fst st" "snd st"] by simp
      show ?thesis
        using "1.IH"(2) [OF True refl refl ne]
        by (simp add: parse_loop_step [OF a b] ne pl pl')
    qed
  qed
qed

lemma chunk_compose:
  "parseWhatsAppStringChunk content offset (m + n) am w =
     (case parseWhatsAppStringChunk content offset m am w of
        (p1, acc1, w1) \<Rightarrow>
          (case parseWhatsAppStringChunk content p1 n am w1 of
             (p2, acc2, w2) \<Rightarrow> (p2, acc1 @ acc2, w2)))"
proof -
  obtain p1 acc1 w1 where A: "parse_loop content am m offset 0 ([], w) = (p1, acc1, w1)"
    by (cases "parse_loop content am m offset 0 ([], w)")
  obtain p2 acc2 w2 where B: "parse_loop content am n p1 0 ([], w1) = (p2, acc2, w2)"
    by (cases "parse_loop content am n p1 0 ([], w1)")
  have C: "parse_loop content am n p1 0 (acc1, w1) = (p2, acc1 @ acc2, w2)"
    using parse_loop_messages [of content am n p1 0 acc1 "([], w1)"] B by simp
  have "enat 0 \<le> m"
    by (simp add: enat_0)
  from parse_loop_compose [OF this, of content am n offset "([], w)"]
  have "parse_loop content am (m + n) offset 0 ([], w) = (p2, acc1 @ acc2, w2)"
    by (simp add: A C)
  then show ?thesis
    by (simp add: parseWhatsAppStringChunk_def A B)
qed

section \<open>Driving the parser in slices\<close>

text \<open>
  A run over a list of line budgets: each call resumes at the \<open>nextCharIndex\<close> of the call
  before it and shares its tracker and its objects; the caller concatenates the returned
  arrays.
\<close>

fun run_slices :: "string \<Rightarrow> assetMap \<Rightarrow> enat list \<Rightarrow> int \<Rightarrow> world \<Rightarrow> int \<times> nat list \<times> world" where
  "run_slices content assetMap [] offset w = (offset, [], w)"
| "run_slices content assetMap (limit # limits) offset w =
     (case parseWhatsAppStringChunk content offset limit assetMap w of
        (nextCharIndex, messages, w1) \<Rightarrow>
          (case run_slices content assetMap limits nextCharIndex w1 of
             (final, messages', w2) \<Rightarrow> (final, messages @ messages', w2)))"

lemma run_slices_sum:
  "run_slices content am limits offset w =
     parseWhatsAppStringChunk content offset (sum_list limits) am w"
proof (induction limits arbitrary: offset w)
  case Nil
  show ?case
    by (simp add: parseWhatsAppStringChunk_def parse_loop_stop)
next
  case (Cons l ls)
  show ?case
    by (simp add: chunk_compose [of content offset l "sum_list ls"] Cons.IH split: prod.splits)
qed

lemma chunk_at_end:
  assumes "parseWhatsAppStringChunk content offset L am w = (final, acc, w')"
    and "int (length content) \<le> final"
  shows "parseWhatsAppStringChunk content offset \<infinity> am w = (final, acc, w')"
proof -
  have "parseWhatsAppStringChunk content final \<infinity> am w' = (final, [], w')"
    using assms(2) by (simp add: parseWhatsAppStringChunk_def parse_loop_stop)
  then show ?thesis
    using chunk_compose [of content offset L \<infinity> am w] assms(1) by simp
qed

lemma parse_loop_mono: "p \<le> fst (parse_loop content am L p k st)"
proof (induction content am L p k st rule: parse_loop.induct)
  case (1 content am L p k st)
  show ?case
  proof (cases "p < int (length content) \<and> enat k < L")
    case False
    then show ?thesis by (simp add: parse_loop_stop)
  next
    case True
    then have a: "p < int (length content)" and b: "enat k < L" by simp_all
    have "p \<le> next_break content p"
      using a by (simp add: next_break_ge)
    then show ?thesis
      using "1.IH"(1) [OF True refl refl] "1.IH"(2) [OF True refl refl]
      by (auto simp: parse_loop_step [OF a b])
  qed
qed

lemma parse_loop_progress:
  assumes "p < int (length content)" and "enat k < L"
  shows "p < fst (parse_loop content am L p k st)"
proof -
  let ?q = "next_break content p + 1"
  have "p < ?q"
    using assms(1) next_break_ge [of p content] by simp
  moreover have "?q \<le> fst (parse_loop content am L ?q k st)"
    by (rule parse_loop_mono)
  moreover have "?q \<le> fst (parse_loop content am L ?q (Suc k)
      (process_line am (trim (substring content p (next_break content p))) st))"
    by (rule parse_loop_mono)
  ultimately show ?thesis
    by (simp add: parse_loop_step [OF assms])
qed

lemma parse_loop_upper:
  "fst (parse_loop content am L p k st) \<le> max p (int (length content) + 1)"
proof (induction content am L p k st rule: parse_loop.induct)
  case (1 content am L p k st)
  show ?case
  proof (cases "p < int (length content) \<and> enat k < L")
    case False
    then show ?thesis by (simp add: parse_loop_stop)
  next
    case True
    then have a: "p < int (length content)" and b: "enat k < L" by simp_all
    have "next_break content p \<le> int (length content)"
      by (rule next_break_le)
    then show ?thesis
      using "1.IH"(1) [OF True refl refl] "1.IH"(2) [OF True refl refl]
      by (auto simp: parse_loop_step [OF a b])
  qed
qed


lemma chunk_progress:
  assumes "0 < limit" and "offset < int (length content)"
  shows "offset < fst (parseWhatsAppStringChunk content offset limit am w)"
proof -
  have "enat 0 < limit"
    using assms(1) by (simp add: enat_0)
  from parse_loop_progress [OF assms(2) this] show ?thesis
    by (simp add: parseWhatsAppStringChunk_def)
qed

lemma chunk_upper:
  "fst (parseWhatsAppStringChunk content offset limit am w) \<le> max offset (int (length content) + 1)"
  unfolding parseWhatsAppStringChunk_def by (rule parse_loop_upper)

lemma chunk_past_end:
  "int (length content) \<le> offset \<Longrightarrow>
   parseWhatsAppStringChunk content offset limit am w = (offset, [], w)"
  by (simp add: parseWhatsAppStringChunk_def parse_loop_stop)

section \<open>The application: loading a file\<close>

text \<open>
  The component keeps \<open>lastMessageRef\<close> (the tracker handed to every parser call) and
  \<open>accumulatedRef\<close> (the references collected so far) across uploads. \<open>memory\<close> holds the
  message objects together with \<open>lastMessageRef.current\<close>.
\<close>

record app =
  memory :: world
  accumulatedRef :: "nat list"
  error :: "string option"

text \<open>
  \<open>parseNext\<close> is the body that \<open>processInChunks\<close> schedules once per animation frame.
  The function below is the loop its runs make when nothing else happens between two frames:
  one slice after the other until the position reaches the end. Its first statement reads
  \<open>abortControllerRef.current\<close>, the controller of the latest upload, which is replaced by a
  fresh one right after the old one is aborted; the controller found there is never an aborted
  one, so the check never returns and is left out here. The result carries the final
  \<open>currentPos\<close> beside the state. A single run, with the check and with the events that
  may come between two runs, is \<open>parseNext_frame\<close> in the section on selecting a file.
\<close>

function parseNext :: "string \<Rightarrow> assetMap \<Rightarrow> int \<Rightarrow> app \<Rightarrow> int \<times> app" where
  "parseNext chatText mediaMap currentPos a =
     (case parseWhatsAppStringChunk chatText currentPos 15000 mediaMap (memory a) of
        (nextCharIndex, messages, w1) \<Rightarrow>
          let a1 = a\<lparr>memory := w1, accumulatedRef := accumulatedRef a @ messages\<rparr>
          in if nextCharIndex < int (length chatText) then parseNext chatText mediaMap nextCharIndex a1
             else (nextCharIndex, a1))"
  by pat_completeness auto
termination
proof (relation "measure (\<lambda>(chatText, mediaMap, currentPos, a). nat (int (length chatText) - currentPos))")
  show "wf (measure (\<lambda>(chatText, mediaMap, currentPos, a). nat (int (length chatText) - currentPos)))"
    by simp
next
  fix chatText :: string and mediaMap :: assetMap and currentPos :: int and a :: app
    and x nextCharIndex y messages w1 a1
  assume r: "(nextCharIndex, y) = parseWhatsAppStringChunk chatText currentPos 15000 mediaMap (memory a)"
    and lt: "nextCharIndex < int (length chatText)"
  have inside: "currentPos < int (length chatText)"
  proof (rule ccontr)
    assume "\<not> currentPos < int (length chatText)"
    then have "parseWhatsAppStringChunk chatText currentPos 15000 mediaMap (memory a)
        = (currentPos, [], memory a)"
      by (simp add: chunk_past_end)
    with r lt \<open>\<not> currentPos < int (length chatText)\<close> show False by simp
  qed
  have "currentPos < fst (parseWhatsAppStringChunk chatText currentPos 15000 mediaMap (memory a))"
    by (rule chunk_progress) (simp_all add: inside)
  with r have "currentPos < nextCharIndex"
    by (metis fst_conv)
  with lt show "((chatText, mediaMap, nextCharIndex, a1), chatText, mediaMap, currentPos, a)
      \<in> measure (\<lambda>(chatText, mediaMap, currentPos, a). nat (int (length chatText) - currentPos))"
    by simp
qed

declare parseNext.simps [simp del]

lemma parseNext_reaches_end: "int (length chatText) \<le> fst (parseNext chatText mediaMap currentPos a)"
proof (induction chatText mediaMap currentPos a rule: parseNext.induct)
  case (1 chatText mediaMap currentPos a)
  obtain n ms w1 where r: "parseWhatsAppStringChunk chatText currentPos 15000 mediaMap (memory a) = (n, ms, w1)"
    by (cases "parseWhatsAppStringChunk chatText currentPos 15000 mediaMap (memory a)")
  show ?case
  proof (cases "n < int (length chatText)")
    case True
    then show ?thesis
      using "1.IH" [OF r [symmetric] refl refl True]
      by (subst parseNext.simps) (simp add: r)
  next
    case False
    then show ?thesis
      by (subst parseNext.simps) (simp add: r)
  qed
qed


section \<open>The archive\<close>

text \<open>
  The archive reader is a library. Of an archive the model keeps the list that
  \<open>Object.values(zip.files)\<close> yields, each entry with its name, its directory flag and its
  content as a string; \<open>zip.file(n)\<close> is the entry stored under the name \<open>n\<close> if it is
  not a directory. \<open>locator\<close> stands for \<open>URL.createObjectURL\<close> applied to the blob of
  an entry, \<open>None\<close> when reading the blob fails.
\<close>

record zip_entry =
  name :: string
  dir :: bool
  "data" :: string

definition zip_file :: "zip_entry list \<Rightarrow> string \<Rightarrow> zip_entry option" where
  "zip_file entries n = find (\<lambda>f. name f = n \<and> \<not> dir f) entries"

definition textEntries :: "zip_entry list \<Rightarrow> zip_entry list" where
  "textEntries entries = filter (\<lambda>f. endsWith (name f) ''.txt'' \<and> \<not> dir f) entries"

definition by_length_desc :: "zip_entry list \<Rightarrow> zip_entry list" where
  "by_length_desc fs = sort_key (\<lambda>f. - int (length (name f))) fs"

definition first_or_undefined :: "'a list \<Rightarrow> 'a option" where
  "first_or_undefined xs = (case xs of [] \<Rightarrow> None | x # _ \<Rightarrow> Some x)"

definition or_entry :: "'a option \<Rightarrow> 'a option \<Rightarrow> 'a option" where
  "or_entry a b = (case a of Some x \<Rightarrow> Some x | None \<Rightarrow> b)"

definition chatFile :: "zip_entry list \<Rightarrow> zip_entry option" where
  "chatFile entries =
     or_entry (zip_file entries ''_chat.txt'')
       (or_entry (find (\<lambda>f. includes_str (toLowerCase (name f)) ''chat'') (textEntries entries))
          (first_or_undefined (by_length_desc (textEntries entries))))"

definition MEDIA_NAME_REGEXP :: regex where
  "MEDIA_NAME_REGEXP = seqs [chr CHR ''.'', alts (map StrI extensions), Eol]"

definition path_sep :: "char \<Rightarrow> bool" where
  "path_sep c = (c = CHR 0x5C \<or> c = CHR ''/'')"

fun split_on :: "(char \<Rightarrow> bool) \<Rightarrow> string \<Rightarrow> string list" where
  "split_on P [] = [[]]"
| "split_on P (c # cs) =
     (if P c then [] # split_on P cs
      else (case split_on P cs of [] \<Rightarrow> [[c]] | x # xs \<Rightarrow> (c # x) # xs))"

definition baseName_of :: "string \<Rightarrow> string" where
  "baseName_of n = (let l = last (split_on path_sep n) in if l \<noteq> [] then l else n)"

definition register :: "(zip_entry \<Rightarrow> string option) \<Rightarrow> zip_entry \<Rightarrow> assetMap \<Rightarrow> assetMap" where
  "register locator entry mediaMap =
     (case locator entry of
        None \<Rightarrow> mediaMap
      | Some url \<Rightarrow>
          let baseName = baseName_of (name entry)
          in mediaMap(baseName \<mapsto> url, toLowerCase baseName \<mapsto> url))"

definition extractChatAndMediaFromZip ::
  "(zip_entry \<Rightarrow> string option) \<Rightarrow> zip_entry list \<Rightarrow> string + string \<times> assetMap" where
  "extractChatAndMediaFromZip locator entries =
     (case chatFile entries of
        None \<Rightarrow> Inl ''No chat logs found in archive.''
      | Some f \<Rightarrow>
          let mediaEntries =
                filter (\<lambda>f. \<not> dir f \<and> search MEDIA_NAME_REGEXP 0 (name f) \<noteq> None) entries
          in Inr (data f, fold (register locator) mediaEntries Map.empty))"

section \<open>The date of a message bubble\<close>

text \<open>
  A JavaScript number is modelled as \<^typ>\<open>int option\<close>: \<open>parseInt\<close> gives an integer or
  \<open>NaN\<close>, which is \<open>None\<close>. The integers are exact, as they are in JavaScript for the
  tokens of a date (below \<open>2^53\<close>).
\<close>

type_synonym number = "int option"

definition digit_value :: "char \<Rightarrow> nat option" where
  "digit_value c =
     (if is_digit c then Some (of_char c - 48)
      else if c \<in> set ''abcdef'' then Some (of_char c - 87)
      else if c \<in> set ''ABCDEF'' then Some (of_char c - 55)
      else None)"

definition radix_digit :: "nat \<Rightarrow> char \<Rightarrow> bool" where
  "radix_digit R c = (case digit_value c of None \<Rightarrow> False | Some d \<Rightarrow> d < R)"

definition digits_value :: "nat \<Rightarrow> string \<Rightarrow> int" where
  "digits_value R z = foldl (\<lambda>acc c. acc * int R + int (the (digit_value c))) 0 z"

definition parseInt :: "string \<Rightarrow> number" where
  \<comment> \<open>\<open>parseInt(s)\<close> with no radix: white space, a sign, an optional \<open>0x\<close>, then the
      longest run of digits; \<open>NaN\<close> when that run is empty\<close>
  "parseInt s =
     (let s1 = dropWhile is_space s;
          sign = (if prefix ''-'' s1 then - 1 else 1 :: int);
          s2 = (if prefix ''-'' s1 \<or> prefix ''+'' s1 then drop 1 s1 else s1);
          hex = (prefix ''0x'' s2 \<or> prefix ''0X'' s2);
          R = (if hex then 16 else 10);
          s3 = (if hex then drop 2 s2 else s2);
          z = takeWhile (radix_digit R) s3
      in if z = [] then None else Some (sign * digits_value R z))"

definition num_gt :: "number \<Rightarrow> int \<Rightarrow> bool" where
  \<comment> \<open>\<open>x > n\<close>; false for \<open>NaN\<close>\<close>
  "num_gt x n = (case x of None \<Rightarrow> False | Some v \<Rightarrow> n < v)"

definition num_lt :: "number \<Rightarrow> int \<Rightarrow> bool" where
  "num_lt x n = (case x of None \<Rightarrow> False | Some v \<Rightarrow> v < n)"

definition num_add :: "number \<Rightarrow> int \<Rightarrow> number" where
  "num_add x n = map_option (\<lambda>v. v + n) x"

fun show_nat :: "nat \<Rightarrow> string" where
  "show_nat n =
     (if n < 10 then [char_of (48 + n)] else show_nat (n div 10) @ [char_of (48 + n mod 10)])"

declare show_nat.simps [simp del]

definition show_number :: "number \<Rightarrow> string" where
  \<comment> \<open>a number inside a template literal\<close>
  "show_number x =
     (case x of
        None \<Rightarrow> ''NaN''
      | Some v \<Rightarrow> if v < 0 then CHR ''-'' # show_nat (nat (- v)) else show_nat (nat v))"

definition months :: "string list" where
  "months = [''January'', ''February'', ''March'', ''April'', ''May'', ''June'',
     ''July'', ''August'', ''September'', ''October'', ''November'', ''December'']"

definition month_at :: "number \<Rightarrow> string option" where
  \<comment> \<open>\<open>months[monthIdx]\<close>: \<open>undefined\<close> outside \<open>0 .. 11\<close> and for \<open>NaN\<close>\<close>
  "month_at monthIdx =
     (case monthIdx of
        None \<Rightarrow> None
      | Some i \<Rightarrow> if 0 \<le> i \<and> i < int (length months) then Some (months ! nat i) else None)"

definition part_at :: "string list \<Rightarrow> nat \<Rightarrow> string option" where
  \<comment> \<open>\<open>parts[i]\<close>\<close>
  "part_at parts i = (if i < length parts then Some (parts ! i) else None)"

definition day_month :: "number \<Rightarrow> number \<Rightarrow> number \<times> number" where
  \<comment> \<open>the detection of DD/MM against MM/DD: the pair \<open>(day, monthIdx)\<close>\<close>
  "day_month p0 p1 =
     (if num_gt p0 12 then (p0, num_add p1 (- 1))
      else if num_gt p1 12 then (p1, num_add p0 (- 1))
      else (p0, num_add p1 (- 1)))"

definition formatFullDate :: "int \<Rightarrow> string \<Rightarrow> string" where
  \<comment> \<open>the first argument is \<open>new Date().getFullYear()\<close>\<close>
  "formatFullDate thisYear dateStr =
     (if dateStr = [] then []
      else
        let parts = map trim (split_on date_sep dateStr)
        in if length parts < 2 then dateStr
           else
             let p0 = parseInt (parts ! 0);
                 p1 = parseInt (parts ! 1);
                 (day, monthIdx) = day_month p0 p1;
                 year = (if truthy (part_at parts 2)
                         then (let y = parseInt (parts ! 2) in if num_lt y 100 then num_add y 2000 else y)
                         else Some thisYear);
                 monthName = (case month_at monthIdx of Some n \<Rightarrow> n | None \<Rightarrow> parts ! 1)
             in show_number day @ '' '' @ monthName @ '' '' @ show_number year)"


section \<open>Selecting a file\<close>

text \<open>
  The page is driven by events, and \<open>handleFileUpload\<close> is not one step: it runs up to its
  first \<open>await\<close>, and the rest runs when the reads it waits for are there; every call of
  \<open>requestAnimationFrame\<close> leaves a callback that the browser runs later. In between, any
  other event may come. The state of the page is the refs of the component (in \<open>refs\<close>),
  the two fields of \<open>state\<close> that decide what is rendered, the controller held by
  \<open>abortControllerRef\<close>, the callbacks that wait for a frame, and the upload whose handler
  waits for its reads.

  The only file input of the page is rendered when \<open>state.loading\<close> is false and
  \<open>state.messages\<close> is empty; only then can a file be chosen.
\<close>

datatype upload = ZipFile "zip_entry list" | TextFile string

record page =
  refs :: app
  state_loading :: bool
  state_messages :: "nat list"
  abortControllerRef :: "bool option"
  pending_frames :: "(string \<times> assetMap \<times> int) list"
  awaiting :: "(ChatMessage list option \<times> upload) option"

definition initial_app :: app where
  \<comment> \<open>the refs as \<open>useRef\<close> creates them\<close>
  "initial_app = \<lparr>memory = \<lparr>objects = [], tracker = None\<rparr>, accumulatedRef = [], error = None\<rparr>"

definition initial_page :: page where
  "initial_page = \<lparr>refs = initial_app, state_loading = False, state_messages = [],
     abortControllerRef = None, pending_frames = [], awaiting = None\<rparr>"

definition input_rendered :: "page \<Rightarrow> bool" where
  \<comment> \<open>\<open>state.loading ? ... : state.messages.length === 0 ? (... <input type="file"> ...) : ...\<close>\<close>
  "input_rendered s = (\<not> state_loading s \<and> state_messages s = [])"

definition allocate :: "ChatMessage list \<Rightarrow> world \<Rightarrow> nat list \<times> world" where
  \<comment> \<open>objects that come from outside the parser, such as the cached messages\<close>
  "allocate cachedMessages w =
     ([length (objects w) ..< length (objects w) + length cachedMessages],
      w\<lparr>objects := objects w @ cachedMessages\<rparr>)"

definition parseNext_frame :: "string \<times> assetMap \<times> int \<Rightarrow> page \<Rightarrow> page" where
  \<comment> \<open>one run of the callback \<open>parseNext\<close> of \<open>processInChunks\<close>; the triple is what the
      callback closes over: \<open>text\<close>, \<open>mediaMap\<close> and \<open>currentPos\<close>.
      \<open>abortControllerRef.current\<close> is \<open>Some b\<close> for a controller whose signal has
      \<open>aborted = b\<close>\<close>
  "parseNext_frame frame s =
     (case frame of (chatText, mediaMap, currentPos) \<Rightarrow>
        if abortControllerRef s = Some True then s
        else
          (case parseWhatsAppStringChunk chatText currentPos 15000 mediaMap (memory (refs s)) of
             (nextCharIndex, newMessages, w1) \<Rightarrow>
               let accumulated = accumulatedRef (refs s) @ newMessages;
                   s1 = s\<lparr>refs := (refs s)\<lparr>memory := w1, accumulatedRef := accumulated\<rparr>\<rparr>;
                   s2 = (if int (length chatText) \<le> nextCharIndex \<or> length accumulated mod 10000 = 0
                         then s1\<lparr>state_messages := accumulated\<rparr> else s1)
               in if nextCharIndex < int (length chatText)
                  then s2\<lparr>pending_frames := pending_frames s2 @ [(chatText, mediaMap, nextCharIndex)]\<rparr>
                  else s2))"

definition processInChunks :: "string \<Rightarrow> int \<Rightarrow> assetMap \<Rightarrow> page \<Rightarrow> page" where
  \<comment> \<open>\<open>let currentPos = startIdx; ...; parseNext()\<close>: the first run is immediate\<close>
  "processInChunks chatText startIdx mediaMap s = parseNext_frame (chatText, mediaMap, startIdx) s"

definition handleFileUpload_begin :: "ChatMessage list option \<Rightarrow> upload \<Rightarrow> page \<Rightarrow> page" where
  \<comment> \<open>\<open>handleFileUpload\<close> up to \<open>await getChatFromCache(cacheId)\<close>: the controller in the
      ref is aborted and a new one takes its place; \<open>state\<close> and \<open>accumulatedRef\<close> are
      reset. \<open>cached\<close> is what the cache will answer\<close>
  "handleFileUpload_begin cached file s =
     s\<lparr>abortControllerRef := Some False,
       state_loading := True, state_messages := [],
       refs := (refs s)\<lparr>accumulatedRef := [], error := None\<rparr>,
       awaiting := Some (cached, file)\<rparr>"

definition handleFileUpload_resume ::
  "(zip_entry \<Rightarrow> string option) \<Rightarrow> ChatMessage list option \<Rightarrow> upload \<Rightarrow> page \<Rightarrow> page" where
  \<comment> \<open>\<open>handleFileUpload\<close> from the answer of the cache on\<close>
  "handleFileUpload_resume locator cached file s =
     (case cached of
        Some cachedMessages \<Rightarrow>
          (case allocate cachedMessages (memory (refs s)) of
             (cachedRefs, w1) \<Rightarrow>
               s\<lparr>refs := (refs s)\<lparr>memory := w1, accumulatedRef := cachedRefs\<rparr>,
                 state_messages := cachedRefs, state_loading := False\<rparr>)
      | None \<Rightarrow>
          (case (case file of
                   ZipFile entries \<Rightarrow> extractChatAndMediaFromZip locator entries
                 | TextFile t \<Rightarrow> Inr (t, Map.empty)) of
             Inl message \<Rightarrow>
               s\<lparr>state_loading := False, refs := (refs s)\<lparr>error := Some message\<rparr>\<rparr>
           | Inr (chatText, mediaMap) \<Rightarrow>
               (case parseWhatsAppStringChunk chatText 0 1000 mediaMap (memory (refs s)) of
                  (nextCharIndex, firstBatch, w1) \<Rightarrow>
                    let s1 = s\<lparr>refs := (refs s)\<lparr>memory := w1, accumulatedRef := firstBatch\<rparr>,
                               state_messages := firstBatch, state_loading := False\<rparr>
                    in if nextCharIndex < int (length chatText)
                       then processInChunks chatText nextCharIndex mediaMap s1
                       else s1)))"

datatype event =
    Choose "ChatMessage list option" upload
  | Resume
  | Frame

definition step :: "(zip_entry \<Rightarrow> string option) \<Rightarrow> event \<Rightarrow> page \<Rightarrow> page option" where
  \<comment> \<open>\<open>None\<close>: the event cannot happen in this state.
      \<open>Choose\<close>: the user picks a file in the input, which must be rendered.
      \<open>Resume\<close>: the reads of the waiting handler are there.
      \<open>Frame\<close>: the browser runs the oldest waiting callback\<close>
  "step locator e s =
     (case e of
        Choose cached file \<Rightarrow>
          if input_rendered s then Some (handleFileUpload_begin cached file s) else None
      | Resume \<Rightarrow>
          (case awaiting s of
             None \<Rightarrow> None
           | Some (cached, file) \<Rightarrow>
               Some (handleFileUpload_resume locator cached file (s\<lparr>awaiting := None\<rparr>)))
      | Frame \<Rightarrow>
          (case pending_frames s of
             [] \<Rightarrow> None
           | frame # frames \<Rightarrow> Some (parseNext_frame frame (s\<lparr>pending_frames := frames\<rparr>))))"

fun run :: "(zip_entry \<Rightarrow> string option) \<Rightarrow> event list \<Rightarrow> page \<Rightarrow> page option" where
  "run locator [] s = Some s"
| "run locator (e # es) s =
     (case step locator e s of None \<Rightarrow> None | Some s' \<Rightarrow> run locator es s')"

section \<open>Lemmas about the model\<close>

subsection \<open>Strings\<close>

lemma includes_str_iff: "includes_str s t \<longleftrightarrow> (\<exists>u v. s = u @ t @ v)"
proof (induction s)
  case Nil
  show ?case by auto
next
  case (Cons c cs)
  show ?case
  proof
    assume "includes_str (c # cs) t"
    then consider "prefix t (c # cs)" | "includes_str cs t" by auto
    then show "\<exists>u v. c # cs = u @ t @ v"
    proof cases
      case 1
      then obtain v where "c # cs = t @ v" by (auto simp: prefix_def)
      then have "c # cs = [] @ t @ v" by simp
      then show ?thesis by blast
    next
      case 2
      with Cons.IH obtain u v where "cs = u @ t @ v" by auto
      then have "c # cs = (c # u) @ t @ v" by simp
      then show ?thesis by blast
    qed
  next
    assume "\<exists>u v. c # cs = u @ t @ v"
    then obtain u v where e: "c # cs = u @ t @ v" by auto
    show "includes_str (c # cs) t"
    proof (cases u)
      case Nil
      with e have "prefix t (c # cs)" by (simp add: prefix_def)
      then show ?thesis by simp
    next
      case (Cons d u')
      with e have "cs = u' @ t @ v" by simp
      with Cons.IH have "includes_str cs t" by blast
      then show ?thesis by simp
    qed
  qed
qed


lemma replace_first_present:
  "includes_str s f \<Longrightarrow> \<exists>u v. s = u @ f @ v \<and> replace_first f s = u @ v"
proof (induction s)
  case Nil
  then show ?case by simp
next
  case (Cons c cs)
  show ?case
  proof (cases "prefix f (c # cs)")
    case True
    then obtain v where v: "c # cs = f @ v" by (auto simp: prefix_def)
    have "replace_first f (c # cs) = drop (length f) (c # cs)"
      using True by simp
    also have "\<dots> = drop (length f) (f @ v)"
      by (simp only: v)
    finally have "replace_first f (c # cs) = v"
      by simp
    with v have "c # cs = [] @ f @ v \<and> replace_first f (c # cs) = [] @ v" by simp
    then show ?thesis by blast
  next
    case False
    with Cons.prems have "includes_str cs f" by simp
    with Cons.IH obtain u v where A: "cs = u @ f @ v" and B: "replace_first f cs = u @ v"
      by auto
    from False have "replace_first f (c # cs) = c # replace_first f cs"
      by simp
    with B have "replace_first f (c # cs) = (c # u) @ v"
      by simp
    moreover from A have "c # cs = (c # u) @ f @ v"
      by simp
    ultimately show ?thesis by blast
  qed
qed


lemma toLowerCase_infix:
  "(\<exists>u v. toLowerCase s = u @ t @ v) \<longleftrightarrow> (\<exists>u x v. s = u @ x @ v \<and> toLowerCase x = t)"
  unfolding toLowerCase_def
proof
  assume "\<exists>u v. map lower_char s = u @ t @ v"
  then obtain u v where e: "map lower_char s = u @ t @ v" by auto
  let ?x = "take (length t) (drop (length u) s)"
  have "map lower_char ?x = take (length t) (drop (length u) (map lower_char s))"
    by (simp add: take_map drop_map)
  then have b: "map lower_char ?x = t"
    by (simp add: e)
  have a: "s = take (length u) s @ ?x @ drop (length t) (drop (length u) s)"
    by (simp only: append_take_drop_id)
  from a b show "\<exists>u x v. s = u @ x @ v \<and> map lower_char x = t" by blast
next
  assume "\<exists>u x v. s = u @ x @ v \<and> map lower_char x = t"
  then obtain u x v where "s = u @ x @ v" "map lower_char x = t" by auto
  then have "map lower_char s = map lower_char u @ t @ map lower_char v" by simp
  then show "\<exists>u v. map lower_char s = u @ t @ v" by blast
qed

subsection \<open>What one line does\<close>

lemma process_line_header:
  assumes "headMatch line = Some (ts, author, bodyContent)"
  shows "\<exists>m. process_line am line (acc, w) =
           (acc @ [length (objects w)],
            \<lparr>objects = objects w @ [m], tracker = Some (length (objects w))\<rparr>)
         \<and> timestamp m = trim ts \<and> sender m = trim author
         \<and> isViewOnce m = Some (includes_str (toLowerCase bodyContent) ''view once'')"
  using assms by (simp add: process_line_def Let_def)

lemma process_line_orphan:
  assumes "headMatch line = None" and "tracker w = None"
  shows "process_line am line (acc, w) = (acc, w)"
  using assms by (simp add: process_line_def Let_def)

definition continued :: "assetMap \<Rightarrow> string \<Rightarrow> ChatMessage \<Rightarrow> ChatMessage" where
  \<comment> \<open>the open record after a line that is not a header\<close>
  "continued am line m =
     (case fileName_of line of
        None \<Rightarrow> m\<lparr>text := text m @ CHR 0x0A # line\<rparr>
      | Some f \<Rightarrow>
          if f = [] then m\<lparr>text := text m @ CHR 0x0A # line\<rparr>
          else
            let url = resolve am f;
                cleaned = strip_name f (strip_markers line)
            in m\<lparr>mediaUrl := (if truthy url then url else mediaUrl m),
                 text := text m @ (if cleaned = [] then []
                                   else (if text m = [] then [] else [CHR 0x0A]) @ cleaned)\<rparr>)"

lemma process_line_continuation:
  assumes "headMatch line = None" and "tracker w = Some a" and "a < length (objects w)"
  shows "process_line am line (acc, w) =
           (acc, w\<lparr>objects := (objects w)[a := continued am line (objects w ! a)]\<rparr>)"
  using assms
  by (cases "fileName_of line")
    (auto simp: process_line_def Let_def truthy_def update_object_def append_text_def
      continued_def)


subsection \<open>What a call keeps of the objects it finds\<close>

definition kept :: "ChatMessage \<Rightarrow> ChatMessage \<Rightarrow> bool" where
  \<comment> \<open>the second record is the first one after more lines: only text is added at the end,
      and a media locator may be set or replaced\<close>
  "kept m m' =
     (timestamp m' = timestamp m \<and> sender m' = sender m \<and> isMe m' = isMe m
      \<and> isViewOnce m' = isViewOnce m \<and> prefix (text m) (text m')
      \<and> (mediaUrl m = None \<or> mediaUrl m' \<noteq> None))"

definition grows :: "world \<Rightarrow> world \<Rightarrow> bool" where
  "grows w w' =
     (length (objects w) \<le> length (objects w')
      \<and> (\<forall>a<length (objects w). kept (objects w ! a) (objects w' ! a)))"

lemma kept_refl: "kept m m"
  by (auto simp: kept_def)

lemma kept_trans: "kept m1 m2 \<Longrightarrow> kept m2 m3 \<Longrightarrow> kept m1 m3"
  by (auto simp: kept_def)

lemma grows_refl: "grows w w"
  by (simp add: grows_def kept_refl)

lemma grows_trans: "grows w1 w2 \<Longrightarrow> grows w2 w3 \<Longrightarrow> grows w1 w3"
  unfolding grows_def by (meson kept_trans le_trans less_le_trans)

lemma truthy_Some: "truthy v \<Longrightarrow> v \<noteq> None"
  by (cases v) (auto simp: truthy_def)

lemma kept_continued: "kept m (continued am line m)"
  by (auto simp: kept_def continued_def Let_def truthy_Some split: option.splits)

lemma process_line_grows: "grows w (snd (process_line am line (acc, w)))"
proof (cases "headMatch line")
  case (Some h)
  obtain ts author bodyContent where "h = (ts, author, bodyContent)"
    by (cases h)
  with Some process_line_header [of line ts author bodyContent am acc w]
  show ?thesis
    by (auto simp: grows_def kept_refl nth_append)
next
  case None
  show ?thesis
  proof (cases "tracker w")
    case n: None
    with None show ?thesis
      by (simp add: process_line_orphan grows_refl)
  next
    case (Some a)
    show ?thesis
    proof (cases "a < length (objects w)")
      case True
      with None Some show ?thesis
        by (simp add: process_line_continuation grows_def kept_refl kept_continued
            nth_list_update)
    next
      case False
      then have "(objects w)[a := m] = objects w" for m
        by (simp add: list_update_beyond)
      with None Some have "objects (snd (process_line am line (acc, w))) = objects w"
        by (simp add: process_line_def Let_def update_object_def)
      then show ?thesis
        by (simp add: grows_def kept_refl)
    qed
  qed
qed

lemma parse_loop_grows: "grows (snd st) (snd (snd (parse_loop content am L p k st)))"
proof (induction content am L p k st rule: parse_loop.induct)
  case (1 content am L p k st)
  show ?case
  proof (cases "p < int (length content) \<and> enat k < L")
    case False
    then show ?thesis by (simp add: parse_loop_stop grows_refl)
  next
    case True
    then have a: "p < int (length content)" and b: "enat k < L" by simp_all
    let ?line = "trim (substring content p (next_break content p))"
    show ?thesis
    proof (cases "?line = []")
      case e: True
      with "1.IH"(1) [OF True refl refl e] show ?thesis
        by (simp add: parse_loop_step [OF a b])
    next
      case ne: False
      have "grows (snd st) (snd (process_line am ?line st))"
        using process_line_grows [of "snd st" am ?line "fst st"] by simp
      from grows_trans [OF this "1.IH"(2) [OF True refl refl ne]] ne show ?thesis
        by (simp add: parse_loop_step [OF a b])
    qed
  qed
qed

lemma chunk_grows: "grows w (snd (snd (parseWhatsAppStringChunk content offset limit am w)))"
  using parse_loop_grows [of "([], w)" content am limit offset 0]
  by (simp add: parseWhatsAppStringChunk_def)

subsection \<open>The parser on a text given by its lines\<close>

definition lines_text :: "string list \<Rightarrow> string" where
  \<comment> \<open>the text whose lines are \<open>ls\<close>, each ended by a line feed\<close>
  "lines_text ls = concat (map (\<lambda>l. l @ [CHR 0x0A]) ls)"

definition plain_line :: "string \<Rightarrow> bool" where
  \<comment> \<open>a line that the loop hands on as it is: not empty, nothing to trim, no line feed\<close>
  "plain_line l = (l \<noteq> [] \<and> trim l = l \<and> CHR 0x0A \<notin> set l)"

definition shifted :: "int \<Rightarrow> int \<times> 'a \<Rightarrow> int \<times> 'a" where
  "shifted d r = (d + fst r, snd r)"

lemma clamp_index_append:
  "0 \<le> q \<Longrightarrow> clamp_index (pre @ rest) (int (length pre) + q) = length pre + clamp_index rest q"
  by (auto simp: clamp_index_def min_def max_def)

lemma next_break_append:
  assumes "0 \<le> q"
  shows "next_break (pre @ rest) (int (length pre) + q) = int (length pre) + next_break rest q"
  using assms
  by (simp add: next_break_def indexOf_def Let_def clamp_index_append)

lemma substring_append:
  assumes "0 \<le> a" and "0 \<le> b"
  shows "substring (pre @ rest) (int (length pre) + a) (int (length pre) + b) = substring rest a b"
  using assms
  by (simp add: substring_def Let_def clamp_index_append min_def max_def)

lemma parse_loop_append:
  "0 \<le> q \<Longrightarrow>
   parse_loop (pre @ rest) am L (int (length pre) + q) k st =
     shifted (int (length pre)) (parse_loop rest am L q k st)"
proof (induction rest am L q k st rule: parse_loop.induct)
  case (1 rest am L q k st)
  show ?case
  proof (cases "q < int (length rest) \<and> enat k < L")
    case False
    then have "\<not> (int (length pre) + q < int (length (pre @ rest)) \<and> enat k < L)"
      by auto
    then show ?thesis
      using False by (simp add: parse_loop_stop shifted_def)
  next
    case True
    then have a: "q < int (length rest)" and b: "enat k < L" by simp_all
    have a': "int (length pre) + q < int (length (pre @ rest))"
      using a by simp
    have nn: "0 \<le> next_break rest q + 1"
      using next_break_nonneg [of rest q] by simp
    have nb: "next_break (pre @ rest) (int (length pre) + q) + 1
        = int (length pre) + (next_break rest q + 1)"
      using "1.prems" by (simp add: next_break_append)
    have sub: "substring (pre @ rest) (int (length pre) + q) (next_break (pre @ rest) (int (length pre) + q))
        = substring rest q (next_break rest q)"
      using "1.prems" next_break_nonneg [of rest q]
      by (simp add: next_break_append substring_append)
    show ?thesis
      using "1.IH"(1) [OF True refl refl _ nn] "1.IH"(2) [OF True refl refl _ nn]
      by (simp add: parse_loop_step [OF a' b] parse_loop_step [OF a b] nb sub)
  qed
qed

lemma next_break_first_line:
  assumes "CHR 0x0A \<notin> set l"
  shows "next_break (l @ CHR 0x0A # rest) 0 = int (length l)"
proof -
  have "\<And>x. x \<in> set l \<Longrightarrow> x \<noteq> CHR 0x0A"
    using assms by auto
  then have "takeWhile (\<lambda>x. x \<noteq> CHR 0x0A) (l @ CHR 0x0A # rest) = l"
    by (simp add: takeWhile_append2)
  then show ?thesis
    by (simp add: next_break_def indexOf_def Let_def clamp_index_def)
qed

lemma substring_first_line: "substring (l @ rest) 0 (int (length l)) = l"
  by (simp add: substring_def Let_def clamp_index_def)

lemma parse_loop_line:
  assumes "plain_line l" and "enat k < L"
  shows "parse_loop (l @ CHR 0x0A # rest) am L 0 k st =
    shifted (int (length l) + 1) (parse_loop rest am L 0 (Suc k) (process_line am l st))"
proof -
  have inside: "(0::int) < int (length (l @ CHR 0x0A # rest))"
    by simp
  have nl: "CHR 0x0A \<notin> set l" and tr: "trim l = l" and ne: "l \<noteq> []"
    using assms(1) by (simp_all add: plain_line_def)
  have "parse_loop (l @ CHR 0x0A # rest) am L 0 k st =
      parse_loop (l @ CHR 0x0A # rest) am L (int (length l) + 1) (Suc k) (process_line am l st)"
    by (simp add: parse_loop_step [OF inside assms(2)] next_break_first_line [OF nl]
        substring_first_line tr ne)
  also have "\<dots> = parse_loop ((l @ [CHR 0x0A]) @ rest) am L (int (length (l @ [CHR 0x0A])) + 0)
      (Suc k) (process_line am l st)"
    by (simp add: add.commute)
  also have "\<dots> = shifted (int (length (l @ [CHR 0x0A])))
      (parse_loop rest am L 0 (Suc k) (process_line am l st))"
    by (rule parse_loop_append) simp
  finally show ?thesis by (simp add: add.commute)
qed

lemma shifted_shifted: "shifted a (shifted b r) = shifted (a + b) r"
  by (simp add: shifted_def)

lemma parse_loop_lines:
  assumes "\<forall>l\<in>set ls. plain_line l" and "enat (k + length ls) \<le> L"
  shows "parse_loop (lines_text ls @ rest) am L 0 k st =
    shifted (int (length (lines_text ls)))
      (parse_loop rest am L 0 (k + length ls) (fold (process_line am) ls st))"
  using assms
proof (induction ls arbitrary: k st)
  case Nil
  show ?case by (simp add: lines_text_def shifted_def)
next
  case (Cons l ls)
  have pl: "plain_line l" using Cons.prems(1) by simp
  have "enat k < enat (k + length (l # ls))" by simp
  with Cons.prems(2) have lt: "enat k < L"
    using less_le_trans by blast
  have le: "enat (Suc k + length ls) \<le> L"
    using Cons.prems(2) by simp
  have all: "\<forall>l\<in>set ls. plain_line l"
    using Cons.prems(1) by simp
  have "parse_loop (lines_text (l # ls) @ rest) am L 0 k st
      = parse_loop (l @ CHR 0x0A # (lines_text ls @ rest)) am L 0 k st"
    by (simp add: lines_text_def)
  also have "\<dots> = shifted (int (length l) + 1)
      (parse_loop (lines_text ls @ rest) am L 0 (Suc k) (process_line am l st))"
    by (rule parse_loop_line [OF pl lt])
  also have "\<dots> = shifted (int (length l) + 1) (shifted (int (length (lines_text ls)))
      (parse_loop rest am L 0 (Suc k + length ls) (fold (process_line am) ls (process_line am l st))))"
    by (simp only: Cons.IH [OF all le])
  finally show ?case
    by (simp add: shifted_shifted lines_text_def ac_simps)
qed

lemma lines_text_append: "lines_text (as @ bs) = lines_text as @ lines_text bs"
  by (simp add: lines_text_def)

lemma lines_text_Cons: "lines_text (l # ls) = l @ CHR 0x0A # lines_text ls"
  by (simp add: lines_text_def)

lemma length_lines_replicate: "length (lines_text (replicate n l)) = n * (length l + 1)"
  by (induction n) (simp_all add: lines_text_def)

lemma fold_orphans:
  assumes "\<forall>l\<in>set ls. headMatch l = None" and "tracker w = None"
  shows "fold (process_line am) ls (acc, w) = (acc, w)"
  using assms by (induction ls) (simp_all add: process_line_orphan)

lemma fold_continuations:
  assumes "\<forall>l\<in>set ls. headMatch l = None \<and> fileName_of l = None"
    and "tracker w = Some a" and "a < length (objects w)"
  shows "fold (process_line am) ls (acc, w) =
    (acc, w\<lparr>objects := (objects w)[a := (objects w ! a)
            \<lparr>text := text (objects w ! a) @ concat (map ((#) (CHR 0x0A)) ls)\<rparr>]\<rparr>)"
  using assms
proof (induction ls arbitrary: w)
  case Nil
  show ?case by simp
next
  case (Cons l ls)
  let ?w1 = "w\<lparr>objects := (objects w)[a := continued am l (objects w ! a)]\<rparr>"
  have hm: "headMatch l = None" and fn: "fileName_of l = None"
    using Cons.prems(1) by simp_all
  have step: "process_line am l (acc, w) = (acc, ?w1)"
    by (rule process_line_continuation [OF hm Cons.prems(2) Cons.prems(3)])
  have rest: "\<forall>l\<in>set ls. headMatch l = None \<and> fileName_of l = None"
    using Cons.prems(1) by simp
  have t1: "tracker ?w1 = Some a" using Cons.prems(2) by simp
  have l1: "a < length (objects ?w1)" using Cons.prems(3) by simp
  have "fold (process_line am) (l # ls) (acc, w) = fold (process_line am) ls (acc, ?w1)"
    by (simp add: step)
  also have "\<dots> = (acc, ?w1\<lparr>objects := (objects ?w1)[a := (objects ?w1 ! a)
            \<lparr>text := text (objects ?w1 ! a) @ concat (map ((#) (CHR 0x0A)) ls)\<rparr>]\<rparr>)"
    by (rule Cons.IH [OF rest t1 l1])
  also have "\<dots> = (acc, w\<lparr>objects := (objects w)[a := (objects w ! a)
            \<lparr>text := text (objects w ! a) @ concat (map ((#) (CHR 0x0A)) (l # ls))\<rparr>]\<rparr>)"
    using Cons.prems(3) by (simp add: continued_def fn)
  finally show ?case .
qed

subsection \<open>Choosing the transcript\<close>

lemma zip_file_Some:
  "zip_file entries n = Some f \<Longrightarrow> f \<in> set entries \<and> name f = n \<and> \<not> dir f"
  by (auto simp: zip_file_def find_Some_iff)

lemma zip_file_None:
  "zip_file entries n = None \<longleftrightarrow> \<not> (\<exists>f\<in>set entries. name f = n \<and> \<not> dir f)"
  by (auto simp: zip_file_def find_None_iff)

lemma chat_txt_is_text: "endsWith ''_chat.txt'' ''.txt''"
  by (simp add: suffix_to_prefix)

lemma set_textEntries:
  "set (textEntries entries) = {f \<in> set entries. endsWith (name f) ''.txt'' \<and> \<not> dir f}"
  by (simp add: textEntries_def)

lemma by_length_desc_Nil: "by_length_desc fs = [] \<longleftrightarrow> fs = []"
  by (metis by_length_desc_def length_0_conv length_sort)

lemma by_length_desc_first:
  assumes "first_or_undefined (by_length_desc fs) = Some f"
  shows "f \<in> set fs \<and> (\<forall>g\<in>set fs. length (name g) \<le> length (name f))"
proof -
  let ?k = "\<lambda>f. - int (length (name f))"
  obtain rest where s: "sort_key ?k fs = f # rest"
    using assms by (auto simp: first_or_undefined_def by_length_desc_def split: list.splits)
  have "set (sort_key ?k fs) = set fs"
    by simp
  with s have mem: "f \<in> set fs" and sub: "set fs = insert f (set rest)"
    by auto
  have "sorted (map ?k (sort_key ?k fs))"
    by (rule sorted_sort_key)
  with s have "\<forall>g\<in>set rest. ?k f \<le> ?k g"
    by simp
  with sub have "\<forall>g\<in>set fs. length (name g) \<le> length (name f)"
    by auto
  with mem show ?thesis by simp
qed

lemma first_or_undefined_None: "first_or_undefined xs = None \<longleftrightarrow> xs = []"
  by (simp add: first_or_undefined_def split: list.splits)

lemma chatFile_None: "chatFile entries = None \<longleftrightarrow> textEntries entries = []"
proof
  assume n: "chatFile entries = None"
  then have "first_or_undefined (by_length_desc (textEntries entries)) = None"
    by (simp add: chatFile_def or_entry_def split: option.splits)
  then show "textEntries entries = []"
    by (simp add: first_or_undefined_None by_length_desc_Nil)
next
  assume e: "textEntries entries = []"
  have "zip_file entries ''_chat.txt'' = None"
  proof (rule ccontr)
    assume "zip_file entries ''_chat.txt'' \<noteq> None"
    then obtain f where "zip_file entries ''_chat.txt'' = Some f" by auto
    from zip_file_Some [OF this] have "f \<in> set (textEntries entries)"
      using chat_txt_is_text by (simp add: set_textEntries)
    with e show False by simp
  qed
  with e show "chatFile entries = None"
    by (simp add: chatFile_def or_entry_def first_or_undefined_def by_length_desc_def)
qed

section \<open>Example inputs\<close>

definition fresh :: world where
  \<comment> \<open>no object yet and an empty tracker\<close>
  "fresh = \<lparr>objects = [], tracker = None\<rparr>"

definition two_messages :: string where
  "two_messages = ''1/2/23, 10:00 - Al: hi'' @ [CHR 0x0A] @ ''more'' @ [CHR 0x0A]
     @ ''1/2/23, 10:01 - Bo: yo''"

definition two_parsed :: world where
  "two_parsed = \<lparr>objects =
     [\<lparr>timestamp = ''1/2/23, 10:00'', sender = ''Al'', text = ''hi'' @ [CHR 0x0A] @ ''more'',
       isMe = None, mediaUrl = None, isViewOnce = Some False\<rparr>,
      \<lparr>timestamp = ''1/2/23, 10:01'', sender = ''Bo'', text = ''yo'',
       isMe = None, mediaUrl = None, isViewOnce = Some False\<rparr>],
     tracker = Some 1\<rparr>"

definition no_locator :: "zip_entry \<Rightarrow> string option" where
  "no_locator f = None"

definition long_export :: string where
  \<comment> \<open>a thousand lines before the first message, a message of fifteen thousand lines, and
      a hundred and fifty thousand lines more\<close>
  "long_export =
     lines_text (replicate 1000 ''x'')
     @ lines_text (''1/2/23, 10:00 - Al: hi'' # replicate 14999 ''y'')
     @ lines_text (replicate 150000 ''z'')"

definition second_export :: string where
  "second_export = lines_text [''stray line'', ''3/4/23, 11:00 - Bo: yo'']"

definition long_message :: ChatMessage where
  "long_message = \<lparr>timestamp = ''1/2/23, 10:00'', sender = ''Al'',
     text = ''hi'' @ concat (map ((#) (CHR 0x0A)) (replicate 14999 ''y'')),
     isMe = None, mediaUrl = None, isViewOnce = Some False\<rparr>"

definition after_first_upload :: page where
  "after_first_upload =
     \<lparr>refs = \<lparr>memory = \<lparr>objects = [long_message], tracker = Some 0\<rparr>,
              accumulatedRef = [0], error = None\<rparr>,
      state_loading = False, state_messages = [], abortControllerRef = Some False,
      pending_frames = [(long_export, Map.empty, 32021)], awaiting = None\<rparr>"

definition both_assets :: assetMap where
  "both_assets = [''a.jpg'' \<mapsto> ''blob:a'', ''b.jpg'' \<mapsto> ''blob:b'']"

definition two_attachments :: string where
  "two_attachments = ''1/2/23, 10:00 - Al: a.jpg (file attached)'' @ [CHR 0x0A] @ ''b.jpg''"

definition open_record :: "string option \<Rightarrow> world" where
  \<comment> \<open>one record, open, with the text \<open>hi\<close> and the given media locator\<close>
  "open_record url = \<lparr>objects = [\<lparr>timestamp = ''1/2/23, 10:00'', sender = ''Al'', text = ''hi'',
       isMe = None, mediaUrl = url, isViewOnce = Some False\<rparr>], tracker = Some 0\<rparr>"

definition view_once_line :: string where
  "view_once_line = ''1/2/23, 10:00 - Al: IMG-1.jpg (file attached) [View Once]''"

definition plain_entry :: "string \<Rightarrow> zip_entry" where
  "plain_entry n = \<lparr>name = n, dir = False, data = ''text of '' @ n\<rparr>"

definition ios_bundle :: "zip_entry list" where
  "ios_bundle = [plain_entry ''Chat notes.txt'', plain_entry ''_chat.txt'', plain_entry ''IMG.jpg'']"

definition android_bundle :: "zip_entry list" where
  "android_bundle = [plain_entry ''readme.txt'', plain_entry ''WhatsApp Chat with Bo.txt'',
     plain_entry ''chat2.txt'']"

definition odd_bundle :: "zip_entry list" where
  "odd_bundle = [plain_entry ''a.txt'', plain_entry ''export.txt'', plain_entry ''IMG.jpg'']"

definition media_bundle :: "zip_entry list" where
  "media_bundle = [plain_entry ''IMG.jpg'', plain_entry ''NOTES.TXT'']"

subsection \<open>The long export, slice by slice\<close>

lemma plain_x: "plain_line ''x''" by code_simp
lemma plain_y: "plain_line ''y''" by code_simp
lemma plain_head: "plain_line ''1/2/23, 10:00 - Al: hi''" by code_simp
lemma plain_stray: "plain_line ''stray line''" by code_simp
lemma plain_head2: "plain_line ''3/4/23, 11:00 - Bo: yo''" by code_simp
lemma head_x: "headMatch ''x'' = None" by code_simp
lemma head_y: "headMatch ''y'' = None" by code_simp
lemma file_y: "fileName_of ''y'' = None" by code_simp
lemma head_stray: "headMatch ''stray line'' = None" by code_simp
lemma file_stray: "fileName_of ''stray line'' = None" by code_simp
lemma head_head2: "headMatch ''3/4/23, 11:00 - Bo: yo'' = Some (''3/4/23, 11:00 '', ''Bo'', ''yo'')"
  by code_simp

lemma first_header:
  "process_line Map.empty ''1/2/23, 10:00 - Al: hi'' ([], fresh) =
     ([0], \<lparr>objects = [\<lparr>timestamp = ''1/2/23, 10:00'', sender = ''Al'', text = ''hi'',
                          isMe = None, mediaUrl = None, isViewOnce = Some False\<rparr>],
            tracker = Some 0\<rparr>)"
  by code_simp

lemma long_export_first_batch:
  "parseWhatsAppStringChunk long_export 0 1000 Map.empty fresh = (2000, [], fresh)"
proof -
  let ?rest = "lines_text (''1/2/23, 10:00 - Al: hi'' # replicate 14999 ''y'')
     @ lines_text (replicate 150000 ''z'')"
  have "parse_loop (lines_text (replicate 1000 ''x'') @ ?rest) Map.empty 1000 0 0 ([], fresh) =
      shifted (int (length (lines_text (replicate 1000 ''x''))))
        (parse_loop ?rest Map.empty 1000 0 (0 + length (replicate 1000 ''x''))
          (fold (process_line Map.empty) (replicate 1000 ''x'') ([], fresh)))"
    by (rule parse_loop_lines) (simp_all add: plain_x numeral_eq_enat)
  moreover have "fold (process_line Map.empty) (replicate 1000 ''x'') ([], fresh) = ([], fresh)"
    by (rule fold_orphans) (simp_all add: head_x fresh_def)
  moreover have "parse_loop ?rest Map.empty 1000 0 1000 ([], fresh) = (0, [], fresh)"
    by (rule parse_loop_stop) (simp add: numeral_eq_enat)
  ultimately show ?thesis
    by (simp add: parseWhatsAppStringChunk_def long_export_def length_lines_replicate shifted_def)
qed

lemma long_export_second_batch:
  "parseWhatsAppStringChunk long_export 2000 15000 Map.empty fresh =
     (32021, [0], \<lparr>objects = [long_message], tracker = Some 0\<rparr>)"
proof -
  let ?junk = "lines_text (replicate 1000 ''x'')"
  let ?msg = "''1/2/23, 10:00 - Al: hi'' # replicate 14999 ''y''"
  let ?tail = "lines_text (replicate 150000 ''z'')"
  let ?w = "\<lparr>objects = [\<lparr>timestamp = ''1/2/23, 10:00'', sender = ''Al'', text = ''hi'',
                          isMe = None, mediaUrl = None, isViewOnce = Some False\<rparr>],
            tracker = Some 0\<rparr>"
  have "parse_loop (?junk @ (lines_text ?msg @ ?tail)) Map.empty 15000 (int (length ?junk) + 0) 0 ([], fresh)
      = shifted (int (length ?junk)) (parse_loop (lines_text ?msg @ ?tail) Map.empty 15000 0 0 ([], fresh))"
    by (rule parse_loop_append) simp
  moreover have "parse_loop (lines_text ?msg @ ?tail) Map.empty 15000 0 0 ([], fresh) =
      shifted (int (length (lines_text ?msg)))
        (parse_loop ?tail Map.empty 15000 0 (0 + length ?msg)
          (fold (process_line Map.empty) ?msg ([], fresh)))"
    by (rule parse_loop_lines) (simp_all add: plain_y plain_head numeral_eq_enat)
  moreover have "fold (process_line Map.empty) ?msg ([], fresh)
      = fold (process_line Map.empty) (replicate 14999 ''y'') ([0], ?w)"
    by (simp add: first_header)
  moreover have "fold (process_line Map.empty) (replicate 14999 ''y'') ([0], ?w)
      = ([0], ?w\<lparr>objects := (objects ?w)[0 := (objects ?w ! 0)
            \<lparr>text := text (objects ?w ! 0) @ concat (map ((#) (CHR 0x0A)) (replicate 14999 ''y''))\<rparr>]\<rparr>)"
    by (rule fold_continuations) (simp_all add: head_y file_y)
  moreover have "parse_loop ?tail Map.empty 15000 0 15000 st = (0, st)" for st
    by (rule parse_loop_stop) (simp add: numeral_eq_enat)
  ultimately show ?thesis
    by (simp add: parseWhatsAppStringChunk_def long_export_def length_lines_replicate
        lines_text_Cons shifted_def long_message_def)
qed

lemma length_long_export: "int (length long_export) = 332021"
  by (simp add: long_export_def length_lines_replicate lines_text_Cons)


lemma first_upload:
  "run no_locator [Choose None (TextFile long_export), Resume] initial_page
     = Some after_first_upload"
  by (simp add: step_def input_rendered_def initial_page_def initial_app_def
      handleFileUpload_begin_def handleFileUpload_resume_def processInChunks_def
      parseNext_frame_def long_export_first_batch [unfolded fresh_def]
      long_export_second_batch [unfolded fresh_def] length_long_export Let_def
      after_first_upload_def)

lemma second_export_first_batch:
  "\<exists>m. parseWhatsAppStringChunk second_export 0 1000 Map.empty
          \<lparr>objects = [long_message], tracker = Some 0\<rparr> =
        (int (length second_export), [1],
         \<lparr>objects = [long_message\<lparr>text := text long_message @ CHR 0x0A # ''stray line''\<rparr>, m],
          tracker = Some 1\<rparr>)"
proof -
  let ?w = "\<lparr>objects = [long_message], tracker = Some 0\<rparr>"
  let ?ls = "[''stray line'', ''3/4/23, 11:00 - Bo: yo'']"
  let ?w1 = "\<lparr>objects = [long_message\<lparr>text := text long_message @ CHR 0x0A # ''stray line''\<rparr>],
             tracker = Some 0\<rparr>"
  have "parse_loop (lines_text ?ls @ []) Map.empty 1000 0 0 ([], ?w) =
      shifted (int (length (lines_text ?ls)))
        (parse_loop [] Map.empty 1000 0 (0 + length ?ls) (fold (process_line Map.empty) ?ls ([], ?w)))"
    by (rule parse_loop_lines) (simp_all add: plain_stray plain_head2 numeral_eq_enat)
  moreover have "parse_loop [] Map.empty 1000 0 k st = (0, st)" for k st
    by (rule parse_loop_stop) simp
  moreover have "process_line Map.empty ''stray line'' ([], ?w) = ([], ?w1)"
    using process_line_continuation [OF head_stray, of ?w 0 Map.empty "[]"]
    by (simp add: continued_def file_stray)
  moreover obtain m where "process_line Map.empty ''3/4/23, 11:00 - Bo: yo'' ([], ?w1) =
      ([] @ [length (objects ?w1)],
       \<lparr>objects = objects ?w1 @ [m], tracker = Some (length (objects ?w1))\<rparr>)"
    using process_line_header [OF head_head2, of Map.empty "[]" ?w1] by blast
  ultimately have "parseWhatsAppStringChunk second_export 0 1000 Map.empty ?w =
        (int (length second_export), [1],
         \<lparr>objects = [long_message\<lparr>text := text long_message @ CHR 0x0A # ''stray line''\<rparr>, m],
          tracker = Some 1\<rparr>)"
    by (simp add: parseWhatsAppStringChunk_def second_export_def shifted_def)
  then show ?thesis ..
qed

section \<open>The claims\<close>

text \<open>
  C1. Chunk invariance. Whatever the line budgets of the slices, if the calls resume at each
  other's \<open>nextCharIndex\<close>, share the tracker and reach the end of the text, then the
  concatenated \<open>messages\<close> arrays, the objects they refer to and the tracker are those of one
  call over the whole text with an unbounded budget. The arrays hold references, so a record
  that a later slice extends is read with its final fields on both sides.
\<close>

theorem chunk_invariance:
  assumes "run_slices content assetMap limits offset w = (final, messages, w')"
    and "int (length content) \<le> final"
  shows "parseWhatsAppStringChunk content offset \<infinity> assetMap w = (final, messages, w')"
proof -
  from assms(1) have "parseWhatsAppStringChunk content offset (sum_list limits) assetMap w
      = (final, messages, w')"
    by (simp add: run_slices_sum)
  from chunk_at_end [OF this assms(2)] show ?thesis .
qed

theorem chunk_invariance_witness:
  "run_slices two_messages Map.empty [1, 1, 5] 0 fresh = (51, [0, 1], two_parsed)
   \<and> int (length two_messages) \<le> 51
   \<and> parseWhatsAppStringChunk two_messages 0 \<infinity> Map.empty fresh = (51, [0, 1], two_parsed)"
proof -
  have run: "run_slices two_messages Map.empty [1, 1, 5] 0 fresh = (51, [0, 1], two_parsed)"
    by code_simp
  have len: "int (length two_messages) \<le> 51"
    by (simp add: two_messages_def)
  from chunk_invariance [OF run len] run len show ?thesis
    by simp
qed

text \<open>
  C9. Progress of one slice. \<open>parse_loop\<close> is a total function, so every call returns. With
  a positive budget and an offset inside the text the returned index is beyond the offset and
  at most one past the length; the loop of \<open>processInChunks\<close>, whose termination rests on
  this, ends with its position at or past the length.
\<close>

theorem slice_progress:
  assumes "0 < limit" and "offset < int (length content)"
  shows "offset < fst (parseWhatsAppStringChunk content offset limit assetMap w)
    \<and> fst (parseWhatsAppStringChunk content offset limit assetMap w) \<le> int (length content) + 1
    \<and> int (length content) \<le> fst (parseNext content assetMap offset a)"
proof -
  have "fst (parseWhatsAppStringChunk content offset limit assetMap w)
      \<le> max offset (int (length content) + 1)"
    by (rule chunk_upper)
  with assms(2) chunk_progress [OF assms] parseNext_reaches_end [of content assetMap offset a]
  show ?thesis
    by simp
qed

theorem slice_progress_witness:
  "(0::enat) < 1 \<and> (0::int) < int (length two_messages)
   \<and> fst (parseWhatsAppStringChunk two_messages 0 1 Map.empty fresh) = 23
   \<and> (0::int) < fst (parseWhatsAppStringChunk two_messages 0 1 Map.empty fresh)"
proof -
  have a: "(0::enat) < 1" by simp
  have b: "(0::int) < int (length two_messages)" by (simp add: two_messages_def)
  have c: "fst (parseWhatsAppStringChunk two_messages 0 1 Map.empty fresh) = 23"
    by code_simp
  from slice_progress [OF a b, of Map.empty fresh] a b c show ?thesis
    by simp
qed

text \<open>
  C2. Every emitted record has a non-empty sender and a non-empty timestamp after trimming.
  The author group asks for one or more characters other than a colon, and a blank is one:
  on the line below, the separator run gives its last blank back to the author group, and the
  record is emitted with the empty sender.
\<close>

theorem blank_sender_emitted:
  "parseWhatsAppStringChunk ''1/2/23, 10:00 - : hi'' 0 \<infinity> Map.empty fresh =
     (21, [0],
      \<lparr>objects = [\<lparr>timestamp = ''1/2/23, 10:00'', sender = [], text = ''hi'', isMe = None,
                    mediaUrl = None, isViewOnce = Some False\<rparr>],
       tracker = Some 0\<rparr>)"
  by code_simp

text \<open>
  C4. A new upload starts from an empty tracker. \<open>handleFileUpload\<close> empties
  \<open>accumulatedRef\<close> but leaves \<open>lastMessageRef\<close> as the run before left it. The first
  export below has no message in its first thousand lines, so its first batch is empty and the
  file input is rendered again while the frames of the run are still waiting; the slice that
  \<open>processInChunks\<close> parses at once has already opened a record. A second file chosen
  now finds that record in the tracker at its first parser call, and its leading line, which
  belongs to no message of the second file, is appended to the record of the first.
\<close>

theorem tracker_kept_across_uploads:
  "\<exists>s s' s''.
     run no_locator [Choose None (TextFile long_export), Resume] initial_page = Some s
     \<and> input_rendered s
     \<and> run no_locator [Choose None (TextFile second_export)] s = Some s'
     \<and> awaiting s' = Some (None, TextFile second_export)
     \<and> pending_frames s' \<noteq> []
     \<and> tracker (memory (refs s')) = Some 0
     \<and> sender (objects (memory (refs s')) ! 0) = ''Al''
     \<and> run no_locator [Resume] s' = Some s''
     \<and> sender (objects (memory (refs s'')) ! 0) = ''Al''
     \<and> text (objects (memory (refs s'')) ! 0)
         = text (objects (memory (refs s')) ! 0) @ CHR 0x0A # ''stray line''"
proof -
  let ?s' = "handleFileUpload_begin None (TextFile second_export) after_first_upload"
  have a: "input_rendered after_first_upload"
    by (simp add: input_rendered_def after_first_upload_def)
  have b: "run no_locator [Choose None (TextFile second_export)] after_first_upload = Some ?s'"
    by (simp add: step_def a)
  have c: "awaiting ?s' = Some (None, TextFile second_export)"
    by (simp add: handleFileUpload_begin_def)
  have d: "memory (refs ?s') = \<lparr>objects = [long_message], tracker = Some 0\<rparr>"
    by (simp add: handleFileUpload_begin_def after_first_upload_def)
  have p: "pending_frames ?s' \<noteq> []"
    by (simp add: handleFileUpload_begin_def after_first_upload_def)
  obtain m where e: "parseWhatsAppStringChunk second_export 0 1000 Map.empty
          \<lparr>objects = [long_message], tracker = Some 0\<rparr> =
        (int (length second_export), [1],
         \<lparr>objects = [long_message\<lparr>text := text long_message @ CHR 0x0A # ''stray line''\<rparr>, m],
          tracker = Some 1\<rparr>)"
    using second_export_first_batch by blast
  let ?s'' = "handleFileUpload_resume no_locator None (TextFile second_export) (?s'\<lparr>awaiting := None\<rparr>)"
  have f: "run no_locator [Resume] ?s' = Some ?s''"
    by (simp add: step_def c)
  have g: "memory (refs ?s'') =
      \<lparr>objects = [long_message\<lparr>text := text long_message @ CHR 0x0A # ''stray line''\<rparr>, m],
       tracker = Some 1\<rparr>"
    using d e by (simp add: handleFileUpload_resume_def Let_def)
  have h: "sender long_message = ''Al''"
    by (simp add: long_message_def)
  from first_upload a b c d p f g h show ?thesis
    by (intro exI [of _ after_first_upload] exI [of _ ?s'] exI [of _ ?s'']) simp
qed

text \<open>
  C6. An out-of-range month index echoes the token that was taken as the month. For
  \<open>0/13/23\<close> the second token exceeds twelve, so the day is 13 and the month is taken from
  the first token \<open>0\<close>; index \<open>-1\<close> has no name, and the output echoes the second token
  \<open>13\<close>, not the \<open>0\<close>.
\<close>

theorem month_fallback_second_token:
  "formatFullDate thisYear ''0/13/23'' = ''13 13 2023''"
  by code_simp

text \<open>
  C5. The precedence of the date interpreter: a first token above twelve is the day; else a
  second token above twelve is the day; else the first token is the day. In each case the
  other token less one is the month index. The three dates of the specification come out as
  day 13 and index 4, day 13 and index 4, day 5 and index 5.
\<close>

theorem date_precedence:
  "day_month (Some a) (Some b) =
     (if 12 < a then (Some a, Some (b - 1))
      else if 12 < b then (Some b, Some (a - 1))
      else (Some a, Some (b - 1)))
   \<and> day_month (parseInt ''13'') (parseInt ''5'') = (Some 13, Some 4)
   \<and> day_month (parseInt ''5'') (parseInt ''13'') = (Some 13, Some 4)
   \<and> day_month (parseInt ''5'') (parseInt ''6'') = (Some 5, Some 5)
   \<and> formatFullDate thisYear ''13/5/23'' = ''13 May 2023''
   \<and> formatFullDate thisYear ''5/13/23'' = ''13 May 2023''
   \<and> formatFullDate thisYear ''5/6/23'' = ''5 June 2023''"
proof -
  have general: "day_month (Some a) (Some b) =
     (if 12 < a then (Some a, Some (b - 1))
      else if 12 < b then (Some b, Some (a - 1))
      else (Some a, Some (b - 1)))"
    by (simp add: day_month_def num_gt_def num_add_def)
  have a: "day_month (parseInt ''13'') (parseInt ''5'') = (Some 13, Some 4)"
    by code_simp
  have b: "day_month (parseInt ''5'') (parseInt ''13'') = (Some 13, Some 4)"
    by code_simp
  have c: "day_month (parseInt ''5'') (parseInt ''6'') = (Some 5, Some 5)"
    by code_simp
  have d: "formatFullDate thisYear ''13/5/23'' = ''13 May 2023''"
    by code_simp
  have e: "formatFullDate thisYear ''5/13/23'' = ''13 May 2023''"
    by code_simp
  have f: "formatFullDate thisYear ''5/6/23'' = ''5 June 2023''"
    by code_simp
  from general a b c d e f show ?thesis
    by (simp only: simp_thms)
qed

text \<open>
  C3. A continuation line with an attachment filename sets \<open>mediaUrl\<close> only if it is not
  set yet, and a \<open>mediaUrl\<close> once set is never cleared or replaced. The second half fails:
  the record below has the locator of \<open>a.jpg\<close> after its header line, and the
  continuation line \<open>b.jpg\<close> replaces it.
\<close>

theorem media_replaced_by_continuation:
  "map mediaUrl (objects (snd (snd (parseWhatsAppStringChunk two_attachments 0 1 both_assets fresh))))
     = [Some ''blob:a'']
   \<and> headMatch ''b.jpg'' = None \<and> fileName_of ''b.jpg'' = Some ''b.jpg''
   \<and> map mediaUrl (objects (snd (snd (parseWhatsAppStringChunk two_attachments 0 2 both_assets fresh))))
     = [Some ''blob:b'']"
proof -
  have a: "map mediaUrl (objects (snd (snd (parseWhatsAppStringChunk two_attachments 0 1 both_assets fresh))))
     = [Some ''blob:a'']"
    by code_simp
  have b: "headMatch ''b.jpg'' = None"
    by code_simp
  have c: "fileName_of ''b.jpg'' = Some ''b.jpg''"
    by code_simp
  have d: "map mediaUrl (objects (snd (snd (parseWhatsAppStringChunk two_attachments 0 2 both_assets fresh))))
     = [Some ''blob:b'']"
    by code_simp
  from a b c d show ?thesis by (intro conjI)
qed

text \<open>
  C3, as the code has it. On a continuation line with an attachment filename the open record
  gets the locator the filename resolves to whenever there is one, whether or not a locator
  was set before; without one, \<open>mediaUrl\<close> stays as it is. The line changes no other record
  and leaves the tracker. No call of the parser ever clears a \<open>mediaUrl\<close> that is set.
\<close>

theorem continuation_media:
  assumes "headMatch line = None" and "fileName_of line = Some f" and "f \<noteq> []"
    and "tracker w = Some a" and "a < length (objects w)"
  shows "\<exists>w'. process_line assetMap line (acc, w) = (acc, w')
     \<and> mediaUrl (objects w' ! a) =
         (if truthy (resolve assetMap f) then resolve assetMap f else mediaUrl (objects w ! a))
     \<and> (mediaUrl (objects w ! a) \<noteq> None \<longrightarrow> mediaUrl (objects w' ! a) \<noteq> None)
     \<and> tracker w' = Some a \<and> length (objects w') = length (objects w)
     \<and> (\<forall>b<length (objects w). b \<noteq> a \<longrightarrow> objects w' ! b = objects w ! b)
     \<and> (\<forall>content offset limit w0 b.
           b < length (objects w0) \<and> mediaUrl (objects w0 ! b) \<noteq> None \<longrightarrow>
           mediaUrl (objects (snd (snd (parseWhatsAppStringChunk content offset limit assetMap w0))) ! b)
             \<noteq> None)"
proof -
  let ?w' = "w\<lparr>objects := (objects w)[a := continued assetMap line (objects w ! a)]\<rparr>"
  have step: "process_line assetMap line (acc, w) = (acc, ?w')"
    by (rule process_line_continuation [OF assms(1) assms(4) assms(5)])
  have url: "mediaUrl (objects ?w' ! a) =
         (if truthy (resolve assetMap f) then resolve assetMap f else mediaUrl (objects w ! a))"
    using assms(5) by (simp add: continued_def assms(2) assms(3) Let_def)
  have keep: "mediaUrl (objects w ! a) \<noteq> None \<longrightarrow> mediaUrl (objects ?w' ! a) \<noteq> None"
    using url truthy_Some [of "resolve assetMap f"] by auto
  have frame: "\<forall>b<length (objects w). b \<noteq> a \<longrightarrow> objects ?w' ! b = objects w ! b"
    by simp
  have later: "\<forall>content offset limit w0 b.
           b < length (objects w0) \<and> mediaUrl (objects w0 ! b) \<noteq> None \<longrightarrow>
           mediaUrl (objects (snd (snd (parseWhatsAppStringChunk content offset limit assetMap w0))) ! b)
             \<noteq> None"
  proof (intro allI impI)
    fix content offset limit and w0 :: world and b
    assume h: "b < length (objects w0) \<and> mediaUrl (objects w0 ! b) \<noteq> None"
    have "grows w0 (snd (snd (parseWhatsAppStringChunk content offset limit assetMap w0)))"
      by (rule chunk_grows)
    with h show "mediaUrl (objects (snd (snd (parseWhatsAppStringChunk content offset limit assetMap w0))) ! b)
             \<noteq> None"
      by (auto simp: grows_def kept_def)
  qed
  have "process_line assetMap line (acc, w) = (acc, ?w')
     \<and> mediaUrl (objects ?w' ! a) =
         (if truthy (resolve assetMap f) then resolve assetMap f else mediaUrl (objects w ! a))
     \<and> (mediaUrl (objects w ! a) \<noteq> None \<longrightarrow> mediaUrl (objects ?w' ! a) \<noteq> None)
     \<and> tracker ?w' = Some a \<and> length (objects ?w') = length (objects w)
     \<and> (\<forall>b<length (objects w). b \<noteq> a \<longrightarrow> objects ?w' ! b = objects w ! b)"
    using step url keep frame assms(4) by simp
  with later show ?thesis by blast
qed

theorem continuation_media_witness:
  "headMatch ''b.jpg'' = None \<and> fileName_of ''b.jpg'' = Some ''b.jpg'' \<and> ''b.jpg'' \<noteq> []
   \<and> tracker (open_record (Some ''blob:a'')) = Some 0
   \<and> 0 < length (objects (open_record (Some ''blob:a'')))
   \<and> (\<exists>w'. process_line both_assets ''b.jpg'' ([], open_record (Some ''blob:a'')) = ([], w')
         \<and> mediaUrl (objects w' ! 0) = Some ''blob:b'')"
proof -
  have a: "headMatch ''b.jpg'' = None" by code_simp
  have b: "fileName_of ''b.jpg'' = Some ''b.jpg''" by code_simp
  have c: "''b.jpg'' \<noteq> []" by simp
  have d: "tracker (open_record (Some ''blob:a'')) = Some 0"
    by (simp add: open_record_def)
  have e: "0 < length (objects (open_record (Some ''blob:a'')))"
    by (simp add: open_record_def)
  have r: "resolve both_assets ''b.jpg'' = Some ''blob:b''" by code_simp
  have t: "truthy (Some ''blob:b'')" by (simp add: truthy_def)
  from continuation_media [OF a b c d e, of both_assets "[]"] r t
  have "\<exists>w'. process_line both_assets ''b.jpg'' ([], open_record (Some ''blob:a'')) = ([], w')
         \<and> mediaUrl (objects w' ! 0) = Some ''blob:b''"
    by auto
  with a b c d e show ?thesis by (intro conjI)
qed

text \<open>
  C7. The transcript of an archive: the entry named \<open>_chat.txt\<close> if there is one; otherwise
  the first text entry whose name contains \<open>chat\<close>, whatever the case; otherwise a text
  entry with the longest name. The call fails with the error exactly when no entry that is not
  a directory has a name ending in \<open>.txt\<close>, and otherwise returns the text of the chosen
  entry.
\<close>

theorem transcript_selection:
  "((\<exists>f\<in>set entries. name f = ''_chat.txt'' \<and> \<not> dir f) \<longrightarrow>
      (\<exists>f\<in>set entries. chatFile entries = Some f \<and> name f = ''_chat.txt'' \<and> \<not> dir f))
   \<and> (\<not> (\<exists>f\<in>set entries. name f = ''_chat.txt'' \<and> \<not> dir f) \<longrightarrow>
        (\<forall>before f after.
           textEntries entries = before @ f # after
           \<and> includes_str (toLowerCase (name f)) ''chat''
           \<and> (\<forall>g\<in>set before. \<not> includes_str (toLowerCase (name g)) ''chat'')
           \<longrightarrow> chatFile entries = Some f))
   \<and> (\<not> (\<exists>f\<in>set entries. name f = ''_chat.txt'' \<and> \<not> dir f)
        \<and> (\<forall>g\<in>set (textEntries entries). \<not> includes_str (toLowerCase (name g)) ''chat'')
        \<and> textEntries entries \<noteq> [] \<longrightarrow>
        (\<exists>f\<in>set (textEntries entries). chatFile entries = Some f
           \<and> (\<forall>g\<in>set (textEntries entries). length (name g) \<le> length (name f))))
   \<and> (extractChatAndMediaFromZip locator entries = Inl ''No chat logs found in archive.''
        \<longleftrightarrow> \<not> (\<exists>f\<in>set entries. endsWith (name f) ''.txt'' \<and> \<not> dir f))
   \<and> ((\<exists>f\<in>set entries. endsWith (name f) ''.txt'' \<and> \<not> dir f) \<longrightarrow>
        (\<exists>f mediaMap. chatFile entries = Some f
           \<and> extractChatAndMediaFromZip locator entries = Inr (data f, mediaMap)))"
proof -
  let ?chat = "\<lambda>f. includes_str (toLowerCase (name f)) ''chat''"
  have A: "(\<exists>f\<in>set entries. name f = ''_chat.txt'' \<and> \<not> dir f) \<longrightarrow>
      (\<exists>f\<in>set entries. chatFile entries = Some f \<and> name f = ''_chat.txt'' \<and> \<not> dir f)"
  proof
    assume "\<exists>f\<in>set entries. name f = ''_chat.txt'' \<and> \<not> dir f"
    then have "zip_file entries ''_chat.txt'' \<noteq> None"
      by (simp add: zip_file_None)
    then obtain f where f: "zip_file entries ''_chat.txt'' = Some f" by auto
    then have "chatFile entries = Some f"
      by (simp add: chatFile_def or_entry_def)
    with zip_file_Some [OF f]
    show "\<exists>f\<in>set entries. chatFile entries = Some f \<and> name f = ''_chat.txt'' \<and> \<not> dir f"
      by auto
  qed
  have B: "\<not> (\<exists>f\<in>set entries. name f = ''_chat.txt'' \<and> \<not> dir f) \<longrightarrow>
        (\<forall>before f after.
           textEntries entries = before @ f # after \<and> ?chat f \<and> (\<forall>g\<in>set before. \<not> ?chat g)
           \<longrightarrow> chatFile entries = Some f)"
  proof (intro impI allI)
    fix before f after
    assume no: "\<not> (\<exists>f\<in>set entries. name f = ''_chat.txt'' \<and> \<not> dir f)"
      and "textEntries entries = before @ f # after \<and> ?chat f \<and> (\<forall>g\<in>set before. \<not> ?chat g)"
    then have "find ?chat (textEntries entries) = Some f"
      by (auto simp: find_Some_iff nth_append intro!: exI [of _ "length before"])
    moreover from no have "zip_file entries ''_chat.txt'' = None"
      by (simp add: zip_file_None)
    ultimately show "chatFile entries = Some f"
      by (simp add: chatFile_def or_entry_def)
  qed
  have C: "\<not> (\<exists>f\<in>set entries. name f = ''_chat.txt'' \<and> \<not> dir f)
        \<and> (\<forall>g\<in>set (textEntries entries). \<not> ?chat g)
        \<and> textEntries entries \<noteq> [] \<longrightarrow>
        (\<exists>f\<in>set (textEntries entries). chatFile entries = Some f
           \<and> (\<forall>g\<in>set (textEntries entries). length (name g) \<le> length (name f)))"
  proof
    assume h: "\<not> (\<exists>f\<in>set entries. name f = ''_chat.txt'' \<and> \<not> dir f)
        \<and> (\<forall>g\<in>set (textEntries entries). \<not> ?chat g) \<and> textEntries entries \<noteq> []"
    then have z: "zip_file entries ''_chat.txt'' = None"
      by (simp add: zip_file_None)
    from h have n: "find ?chat (textEntries entries) = None"
      by (simp add: find_None_iff)
    from h obtain f where f: "first_or_undefined (by_length_desc (textEntries entries)) = Some f"
      using first_or_undefined_None [of "by_length_desc (textEntries entries)"]
      by (auto simp: by_length_desc_Nil)
    from z n f have "chatFile entries = Some f"
      by (simp add: chatFile_def or_entry_def)
    with by_length_desc_first [OF f]
    show "\<exists>f\<in>set (textEntries entries). chatFile entries = Some f
           \<and> (\<forall>g\<in>set (textEntries entries). length (name g) \<le> length (name f))"
      by auto
  qed
  have T: "textEntries entries = [] \<longleftrightarrow> \<not> (\<exists>f\<in>set entries. endsWith (name f) ''.txt'' \<and> \<not> dir f)"
    by (auto simp: textEntries_def filter_empty_conv simp del: endsWith.simps)
  have D: "extractChatAndMediaFromZip locator entries = Inl ''No chat logs found in archive.''
        \<longleftrightarrow> \<not> (\<exists>f\<in>set entries. endsWith (name f) ''.txt'' \<and> \<not> dir f)"
    using chatFile_None [of entries] T
    by (auto simp: extractChatAndMediaFromZip_def Let_def simp del: endsWith.simps
        split: option.splits)
  have E: "(\<exists>f\<in>set entries. endsWith (name f) ''.txt'' \<and> \<not> dir f) \<longrightarrow>
        (\<exists>f mediaMap. chatFile entries = Some f
           \<and> extractChatAndMediaFromZip locator entries = Inr (data f, mediaMap))"
    using chatFile_None [of entries] T
    by (auto simp: extractChatAndMediaFromZip_def Let_def simp del: endsWith.simps
        split: option.splits)
  from A B C D E show ?thesis
    by (intro conjI)
qed

theorem transcript_selection_witness:
  "chatFile ios_bundle = Some (plain_entry ''_chat.txt'')
   \<and> chatFile android_bundle = Some (plain_entry ''WhatsApp Chat with Bo.txt'')
   \<and> chatFile odd_bundle = Some (plain_entry ''export.txt'')
   \<and> extractChatAndMediaFromZip no_locator media_bundle = Inl ''No chat logs found in archive.''
   \<and> (\<exists>mediaMap. extractChatAndMediaFromZip no_locator odd_bundle
         = Inr (''text of export.txt'', mediaMap))"
proof -
  have a: "\<exists>f\<in>set ios_bundle. name f = ''_chat.txt'' \<and> \<not> dir f"
    by (simp add: ios_bundle_def plain_entry_def)
  have a': "\<forall>f\<in>set ios_bundle. name f = ''_chat.txt'' \<and> \<not> dir f \<longrightarrow> f = plain_entry ''_chat.txt''"
    by (simp add: ios_bundle_def plain_entry_def)
  from transcript_selection [of ios_bundle no_locator] a a'
  have A: "chatFile ios_bundle = Some (plain_entry ''_chat.txt'')"
    by auto
  have b: "\<not> (\<exists>f\<in>set android_bundle. name f = ''_chat.txt'' \<and> \<not> dir f)"
    by (simp add: android_bundle_def plain_entry_def)
  have b': "textEntries android_bundle
      = [plain_entry ''readme.txt''] @ plain_entry ''WhatsApp Chat with Bo.txt'' # [plain_entry ''chat2.txt'']"
    by code_simp
  have b'': "includes_str (toLowerCase (name (plain_entry ''WhatsApp Chat with Bo.txt''))) ''chat''
      \<and> (\<forall>g\<in>set [plain_entry ''readme.txt'']. \<not> includes_str (toLowerCase (name g)) ''chat'')"
    by code_simp
  from transcript_selection [of android_bundle no_locator] b b' b''
  have B: "chatFile android_bundle = Some (plain_entry ''WhatsApp Chat with Bo.txt'')"
    by blast
  have c: "\<not> (\<exists>f\<in>set odd_bundle. name f = ''_chat.txt'' \<and> \<not> dir f)"
    by (simp add: odd_bundle_def plain_entry_def)
  have c': "textEntries odd_bundle = [plain_entry ''a.txt'', plain_entry ''export.txt'']"
    by code_simp
  have c'': "\<forall>g\<in>set [plain_entry ''a.txt'', plain_entry ''export.txt''].
      \<not> includes_str (toLowerCase (name g)) ''chat''"
    by code_simp
  have c3: "\<not> length (name (plain_entry ''export.txt'')) \<le> length (name (plain_entry ''a.txt''))"
    by (simp add: plain_entry_def)
  from transcript_selection [of odd_bundle no_locator] c c' c''
  have "\<exists>f\<in>set [plain_entry ''a.txt'', plain_entry ''export.txt'']. chatFile odd_bundle = Some f
      \<and> (\<forall>g\<in>set [plain_entry ''a.txt'', plain_entry ''export.txt''].
            length (name g) \<le> length (name f))"
    by simp
  with c3 have C: "chatFile odd_bundle = Some (plain_entry ''export.txt'')"
    by auto
  have d: "\<not> (\<exists>f\<in>set media_bundle. endsWith (name f) ''.txt'' \<and> \<not> dir f)"
    by code_simp
  from transcript_selection [of media_bundle no_locator] d
  have D: "extractChatAndMediaFromZip no_locator media_bundle = Inl ''No chat logs found in archive.''"
    by blast
  have e: "\<exists>f\<in>set odd_bundle. endsWith (name f) ''.txt'' \<and> \<not> dir f"
    by code_simp
  from transcript_selection [of odd_bundle no_locator] e C
  have E: "\<exists>mediaMap. extractChatAndMediaFromZip no_locator odd_bundle
         = Inr (''text of export.txt'', mediaMap)"
    by (auto simp: plain_entry_def)
  from A B C D E show ?thesis
    by (intro conjI)
qed

text \<open>
  C8. The record that a header line emits has \<open>isViewOnce\<close> true exactly when the captured
  body, as captured, has a part that lower-cases to \<open>view once\<close>. What the stripping leaves
  of the body plays no part, and no later call of the parser changes the flag of the record.
\<close>

theorem view_once_flag:
  assumes "headMatch line = Some (ts, author, bodyContent)"
  shows "\<exists>m. process_line assetMap line (acc, w) =
           (acc @ [length (objects w)],
            \<lparr>objects = objects w @ [m], tracker = Some (length (objects w))\<rparr>)
     \<and> isViewOnce m = Some (\<exists>u x v. bodyContent = u @ x @ v \<and> toLowerCase x = ''view once'')
     \<and> (\<forall>content offset limit am.
           isViewOnce (objects (snd (snd (parseWhatsAppStringChunk content offset limit am
               \<lparr>objects = objects w @ [m], tracker = Some (length (objects w))\<rparr>)))
             ! length (objects w)) = isViewOnce m)"
proof -
  obtain m where step: "process_line assetMap line (acc, w) =
           (acc @ [length (objects w)],
            \<lparr>objects = objects w @ [m], tracker = Some (length (objects w))\<rparr>)"
    and flag: "isViewOnce m = Some (includes_str (toLowerCase bodyContent) ''view once'')"
    using process_line_header [OF assms, of assetMap acc w] by blast
  have "includes_str (toLowerCase bodyContent) ''view once''
      \<longleftrightarrow> (\<exists>u x v. bodyContent = u @ x @ v \<and> toLowerCase x = ''view once'')"
    by (simp only: includes_str_iff toLowerCase_infix)
  with flag have flag': "isViewOnce m =
      Some (\<exists>u x v. bodyContent = u @ x @ v \<and> toLowerCase x = ''view once'')"
    by simp
  let ?w1 = "\<lparr>objects = objects w @ [m], tracker = Some (length (objects w))\<rparr>"
  have later: "isViewOnce (objects (snd (snd (parseWhatsAppStringChunk content offset limit am ?w1)))
             ! length (objects w)) = isViewOnce m" for content offset limit am
  proof -
    have "grows ?w1 (snd (snd (parseWhatsAppStringChunk content offset limit am ?w1)))"
      by (rule chunk_grows)
    then have "\<forall>a<length (objects ?w1). kept (objects ?w1 ! a)
        (objects (snd (snd (parseWhatsAppStringChunk content offset limit am ?w1))) ! a)"
      by (simp add: grows_def)
    moreover have "length (objects w) < length (objects ?w1)"
      by simp
    ultimately have "kept (objects ?w1 ! length (objects w))
        (objects (snd (snd (parseWhatsAppStringChunk content offset limit am ?w1))) ! length (objects w))"
      by blast
    then show ?thesis
      by (simp add: kept_def)
  qed
  from step flag' later show ?thesis by blast
qed

theorem view_once_flag_witness:
  "headMatch view_once_line = Some (''1/2/23, 10:00 '', ''Al'', ''IMG-1.jpg (file attached) [View Once]'')
   \<and> (\<exists>m. process_line Map.empty view_once_line ([], fresh) = ([0], \<lparr>objects = [m], tracker = Some 0\<rparr>)
          \<and> isViewOnce m = Some True)
   \<and> text (objects (snd (process_line Map.empty view_once_line ([], fresh))) ! 0) = []"
proof -
  have h: "headMatch view_once_line
      = Some (''1/2/23, 10:00 '', ''Al'', ''IMG-1.jpg (file attached) [View Once]'')"
    by code_simp
  have "''IMG-1.jpg (file attached) [View Once]'' = ''IMG-1.jpg (file attached) ['' @ ''View Once'' @ '']''"
    by simp
  moreover have "toLowerCase ''View Once'' = ''view once''"
    by code_simp
  ultimately have e: "\<exists>u x v. ''IMG-1.jpg (file attached) [View Once]'' = u @ x @ v
      \<and> toLowerCase x = ''view once''"
    by blast
  from view_once_flag [OF h, of Map.empty "[]" fresh] e
  have "\<exists>m. process_line Map.empty view_once_line ([], fresh) = ([0], \<lparr>objects = [m], tracker = Some 0\<rparr>)
          \<and> isViewOnce m = Some True"
    by (auto simp: fresh_def)
  moreover have "text (objects (snd (process_line Map.empty view_once_line ([], fresh))) ! 0) = []"
    by code_simp
  ultimately show ?thesis using h by (intro conjI)
qed




end
